theory Spec2Isabelle
  imports Complex_Main "HOL-Library.Product_Lexorder"
begin

section \<open>JavaScript values used by the Lumina services\<close>

text \<open>
  A JavaScript string is a sequence of UTF-16 code units. The bullet character
  U+2022 and the Unicode white space recognised by \<^verbatim>\<open>\s\<close> and \<^verbatim>\<open>trim\<close>
  are single code units, so a string is a list of code-unit numbers. \<open>js\<close> turns
  an ASCII literal into such a list.
\<close>

type_synonym jsstring = "nat list"

definition js :: "string \<Rightarrow> jsstring" where
  "js s = map of_char s"

text \<open>
  \<^verbatim>\<open>Number.prototype.toString\<close> on a non-negative integer (as \<^verbatim>\<open>Date.now()\<close>
  returns): its decimal digits, most significant first, without leading zeros.
\<close>

fun toString :: "nat \<Rightarrow> jsstring" where
  "toString n = (if n < 10 then [48 + n] else toString (n div 10) @ [48 + n mod 10])"

declare toString.simps [simp del]

section \<open>types.ts\<close>

datatype AspectRatio =
  SQUARE | PORTRAIT_3_4 | LANDSCAPE_4_3 | PORTRAIT_9_16 | LANDSCAPE_16_9

datatype ImageSize = K1 | K2 | K4

datatype HistoryType = GENERATED | EDITED | LOGO

record HistoryItem =
  h_id :: jsstring
  h_type :: HistoryType
  h_base64 :: jsstring
  h_prompt :: jsstring
  h_timestamp :: nat
  h_metadata :: "jsstring option"

record SavedPrompt =
  p_id :: jsstring
  p_text :: jsstring
  p_timestamp :: nat
  p_tags :: "jsstring list option"

section \<open>geminiService.ts: aspect ratios\<close>

subsection \<open>JavaScript numbers\<close>

text \<open>
  A JavaScript number is an IEEE 754 double: a finite value (a rational here),
  an infinity or \<^verbatim>\<open>NaN\<close>. The sign of zero is not kept: no operation below
  observes it but division by zero, and a zero divisor here is the \<open>+0\<close> of
  \<^verbatim>\<open>parseInt(...) || 0\<close>.

  \<open>fl\<close> rounds a rational to the nearest double, ties to even, as every
  arithmetic operation of the language does: a double has 53 significant bits,
  the exponent of its unit in the last place is at least \<open>-1074\<close>, and a result
  of magnitude \<open>2 ^ 1024\<close> or more is an infinity.
\<close>

datatype number = Num rat | Infinity | NegInfinity | NaN

text \<open>The number of binary digits of \<open>n\<close>.\<close>

fun bitlen :: "nat \<Rightarrow> nat" where
  "bitlen n = (if n = 0 then 0 else Suc (bitlen (n div 2)))"

declare bitlen.simps [simp del]

definition pow2 :: "int \<Rightarrow> rat" where
  "pow2 e = (if 0 \<le> e then 2 ^ nat e else 1 / 2 ^ nat (- e))"

definition neg_log2 :: "rat \<Rightarrow> int \<Rightarrow> int" where
  "neg_log2 a k = (if a = pow2 (- k) then - k else - k - 1)"

definition floor_log2 :: "rat \<Rightarrow> int" where
  "floor_log2 a =
     (if 1 \<le> a then int (bitlen (nat \<lfloor>a\<rfloor>)) - 1
      else neg_log2 a (int (bitlen (nat \<lfloor>1 / a\<rfloor>)) - 1))"

definition nearest_even :: "rat \<Rightarrow> int \<Rightarrow> int" where
  "nearest_even x f =
     (if x - of_int f < 1 / 2 then f
      else if 1 / 2 < x - of_int f then f + 1
      else if even f then f else f + 1)"

definition round_half_even :: "rat \<Rightarrow> int" where
  "round_half_even x = nearest_even x \<lfloor>x\<rfloor>"

definition pack :: "rat \<Rightarrow> int \<Rightarrow> int \<Rightarrow> number" where
  "pack x e m =
     (if 1024 \<le> e \<or> (e = 1023 \<and> 2 ^ 53 \<le> m)
      then (if 0 < x then Infinity else NegInfinity)
      else Num (if 0 < x then of_int m * pow2 (e - 52) else - (of_int m * pow2 (e - 52))))"

definition round_at :: "rat \<Rightarrow> int \<Rightarrow> number" where
  "round_at x e = pack x e (round_half_even (\<bar>x\<bar> / pow2 (e - 52)))"

definition fl :: "rat \<Rightarrow> number" where
  "fl x = (if x = 0 then Num 0 else round_at x (max (floor_log2 \<bar>x\<bar>) (- 1022)))"

text \<open>The operators \<^verbatim>\<open>/\<close>, \<^verbatim>\<open>-\<close>, \<^verbatim>\<open>Math.abs\<close> and \<^verbatim>\<open><\<close> on numbers.\<close>

fun num_div :: "number \<Rightarrow> number \<Rightarrow> number" where
  "num_div NaN y = NaN"
| "num_div x NaN = NaN"
| "num_div (Num x) (Num y) =
     (if y = 0 then (if x = 0 then NaN else if 0 < x then Infinity else NegInfinity)
      else fl (x / y))"
| "num_div (Num x) y = Num 0"
| "num_div x (Num y) = (if (x = Infinity) = (0 \<le> y) then Infinity else NegInfinity)"
| "num_div x y = NaN"

fun num_sub :: "number \<Rightarrow> number \<Rightarrow> number" where
  "num_sub NaN y = NaN"
| "num_sub x NaN = NaN"
| "num_sub (Num x) (Num y) = fl (x - y)"
| "num_sub (Num x) Infinity = NegInfinity"
| "num_sub (Num x) NegInfinity = Infinity"
| "num_sub Infinity Infinity = NaN"
| "num_sub NegInfinity NegInfinity = NaN"
| "num_sub x y = x"

fun Math_abs :: "number \<Rightarrow> number" where
  "Math_abs (Num x) = Num \<bar>x\<bar>"
| "Math_abs NegInfinity = Infinity"
| "Math_abs x = x"

fun num_less :: "number \<Rightarrow> number \<Rightarrow> bool" where
  "num_less NaN y = False"
| "num_less x NaN = False"
| "num_less (Num x) (Num y) = (x < y)"
| "num_less x Infinity = (x \<noteq> Infinity)"
| "num_less NegInfinity y = (y \<noteq> NegInfinity)"
| "num_less x y = False"

subsection \<open>getClosestAspectRatio\<close>

text \<open>
  \<^verbatim>\<open>ratios.reduce(f)\<close> without an initial value folds \<open>f\<close> over the tail of
  the array, starting from its first element.
\<close>

definition getClosestAspectRatio :: "number \<Rightarrow> number \<Rightarrow> AspectRatio" where
  "getClosestAspectRatio width height =
     (let ratio = num_div width height;
          ratios = [(Num 1, SQUARE),
                    (num_div (Num 3) (Num 4), PORTRAIT_3_4),
                    (num_div (Num 4) (Num 3), LANDSCAPE_4_3),
                    (num_div (Num 9) (Num 16), PORTRAIT_9_16),
                    (num_div (Num 16) (Num 9), LANDSCAPE_16_9)]
      in snd (foldl (\<lambda>prev curr.
                if num_less (Math_abs (num_sub (fst curr) ratio)) (Math_abs (num_sub (fst prev) ratio))
                then curr else prev) (hd ratios) (tl ratios)))"

text \<open>
  The ratio that defines a member of the enumeration (the double the code
  computes for it), the position of its declaration, the distance the code
  compares, and an order-preserving key of the numbers that are not \<^verbatim>\<open>NaN\<close>.
\<close>

fun defining_ratio :: "AspectRatio \<Rightarrow> number" where
  "defining_ratio SQUARE = Num 1"
| "defining_ratio PORTRAIT_3_4 = num_div (Num 3) (Num 4)"
| "defining_ratio LANDSCAPE_4_3 = num_div (Num 4) (Num 3)"
| "defining_ratio PORTRAIT_9_16 = num_div (Num 9) (Num 16)"
| "defining_ratio LANDSCAPE_16_9 = num_div (Num 16) (Num 9)"

fun declaration_index :: "AspectRatio \<Rightarrow> nat" where
  "declaration_index SQUARE = 0"
| "declaration_index PORTRAIT_3_4 = 1"
| "declaration_index LANDSCAPE_4_3 = 2"
| "declaration_index PORTRAIT_9_16 = 3"
| "declaration_index LANDSCAPE_16_9 = 4"

definition distance :: "AspectRatio \<Rightarrow> number \<Rightarrow> number \<Rightarrow> number" where
  "distance a width height = Math_abs (num_sub (defining_ratio a) (num_div width height))"

fun key :: "number \<Rightarrow> int \<times> rat" where
  "key (Num x) = (0, x)"
| "key Infinity = (1, 0)"
| "key NegInfinity = (- 1, 0)"
| "key NaN = (2, 0)"

section \<open>Regular expressions and strings\<close>

subsection \<open>Characters\<close>

text \<open>
  \<^verbatim>\<open>\s\<close> and \<^verbatim>\<open>trim\<close> take the white space and line terminators of the
  language; \<^verbatim>\<open>\d\<close> takes the ten ASCII digits. With the \<^verbatim>\<open>i\<close> flag two code
  units match when their canonical forms (upper case) are equal. The patterns
  that ignore case hold ASCII characters only, and a code unit from 128 on never
  has a canonical form below 128, so only the ASCII letters are folded.
\<close>

definition is_white_space :: "nat \<Rightarrow> bool" where
  "is_white_space c \<longleftrightarrow>
     c \<in> {9, 10, 11, 12, 13, 32, 160, 5760, 8232, 8233, 8239, 8287, 12288, 65279} \<or>
     (8192 \<le> c \<and> c \<le> 8202)"

definition is_digit :: "nat \<Rightarrow> bool" where
  "is_digit c \<longleftrightarrow> 48 \<le> c \<and> c \<le> 57"

definition canonicalize :: "nat \<Rightarrow> nat" where
  "canonicalize c = (if 97 \<le> c \<and> c \<le> 122 then c - 32 else c)"

subsection \<open>Patterns\<close>

text \<open>
  The patterns of the source quantify single characters and character classes
  only, so a quantifier (greedy or lazy, with its bounds) takes an atom.
\<close>

datatype atom = Lit nat | Digit | Space | NonSpace | OneOf "atom list"

fun atom_matches :: "bool \<Rightarrow> atom \<Rightarrow> nat \<Rightarrow> bool" where
  "atom_matches ic (Lit c) ch = (if ic then canonicalize ch = canonicalize c else ch = c)"
| "atom_matches ic Digit ch = is_digit ch"
| "atom_matches ic Space ch = is_white_space ch"
| "atom_matches ic NonSpace ch = (\<not> is_white_space ch)"
| "atom_matches ic (OneOf as) ch = list_ex (\<lambda>a. atom_matches ic a ch) as"

datatype regex =
    Atom atom
  | Seq regex regex
  | Alt regex regex
  | Repeat bool nat "nat option" atom
  | Group nat regex
  | LookAhead regex
  | Bos
  | Eos
  | Empty

subsection \<open>Backtracking matcher\<close>

text \<open>
  The matcher of the language standard, in continuation-passing style: a state
  is the index reached, the input from there on and the captures; a matcher
  runs its continuation on every state it can reach, in the order of priority,
  and returns the first success. \<open>rep\<close> is \<^verbatim>\<open>RepeatMatcher\<close> for an atom.
\<close>

type_synonym captures = "nat \<Rightarrow> jsstring option"
type_synonym mstate = "nat \<times> jsstring \<times> captures"
type_synonym continuation = "mstate \<Rightarrow> mstate option"

fun rep :: "bool \<Rightarrow> bool \<Rightarrow> nat \<Rightarrow> nat option \<Rightarrow> atom \<Rightarrow> mstate \<Rightarrow> continuation \<Rightarrow> mstate option" where
  "rep ic greedy mn mx a (i, [], caps) k = (if mx = Some 0 \<or> mn = 0 then k (i, [], caps) else None)"
| "rep ic greedy mn mx a (i, c # s, caps) k =
     (if mx = Some 0 then k (i, c # s, caps)
      else if mn \<noteq> 0 then
        (if atom_matches ic a c
         then rep ic greedy (mn - 1) (map_option (\<lambda>n. n - 1) mx) a (Suc i, s, caps) k else None)
      else if greedy then
        (case (if atom_matches ic a c
               then rep ic greedy 0 (map_option (\<lambda>n. n - 1) mx) a (Suc i, s, caps) k else None) of
           Some r \<Rightarrow> Some r
         | None \<Rightarrow> k (i, c # s, caps))
      else
        (case k (i, c # s, caps) of
           Some r \<Rightarrow> Some r
         | None \<Rightarrow>
             (if atom_matches ic a c
              then rep ic greedy 0 (map_option (\<lambda>n. n - 1) mx) a (Suc i, s, caps) k else None)))"

fun matcher :: "regex \<Rightarrow> bool \<Rightarrow> mstate \<Rightarrow> continuation \<Rightarrow> mstate option" where
  "matcher (Atom a) ic (i, s, caps) k =
     (case s of [] \<Rightarrow> None | c # cs \<Rightarrow> if atom_matches ic a c then k (Suc i, cs, caps) else None)"
| "matcher (Seq r1 r2) ic x k = matcher r1 ic x (\<lambda>y. matcher r2 ic y k)"
| "matcher (Alt r1 r2) ic x k =
     (case matcher r1 ic x k of Some r \<Rightarrow> Some r | None \<Rightarrow> matcher r2 ic x k)"
| "matcher (Repeat greedy mn mx a) ic x k = rep ic greedy mn mx a x k"
| "matcher (Group n r) ic (i, s, caps) k =
     matcher r ic (i, s, caps) (\<lambda>(j, t, caps'). k (j, t, caps'(n \<mapsto> take (j - i) s)))"
| "matcher (LookAhead r) ic (i, s, caps) k =
     (case matcher r ic (i, s, caps) Some of
        None \<Rightarrow> None
      | Some (j, t, caps') \<Rightarrow> k (i, s, caps'))"
| "matcher Bos ic (i, s, caps) k = (if i = 0 then k (i, s, caps) else None)"
| "matcher Eos ic (i, s, caps) k = (if s = [] then k (i, s, caps) else None)"
| "matcher Empty ic x k = k x"

text \<open>
  \<^verbatim>\<open>RegExp.prototype.exec\<close> without the \<^verbatim>\<open>g\<close> flag (as \<^verbatim>\<open>String.prototype.match\<close>
  calls it): the first index from which the pattern matches, with the end state.
\<close>

fun exec_from :: "regex \<Rightarrow> bool \<Rightarrow> nat \<Rightarrow> jsstring \<Rightarrow> (nat \<times> mstate) option" where
  "exec_from r ic i [] = map_option (Pair i) (matcher r ic (i, [], Map.empty) Some)"
| "exec_from r ic i (c # s) =
     (case matcher r ic (i, c # s, Map.empty) Some of
        Some y \<Rightarrow> Some (i, y)
      | None \<Rightarrow> exec_from r ic (Suc i) s)"

subsection \<open>String methods\<close>

text \<open>
  \<^verbatim>\<open>String.prototype.split\<close> with a pattern that has no capture group: the loop
  of the standard over the indices \<open>q\<close>, \<open>p\<close> the start of the current piece. It
  terminates because a match never ends before it starts.
\<close>

lemma rep_mono:
  "rep ic g mn mx a (i, s, c) k = Some res \<Longrightarrow> \<exists>j t c'. i \<le> j \<and> k (j, t, c') = Some res"
proof (induction s arbitrary: i mn mx)
  case Nil
  then show ?case by (auto split: if_splits)
next
  case (Cons x s)
  from Cons.prems consider
      (stop) "k (i, x # s, c) = Some res"
    | (step) mn' mx' where "rep ic g mn' mx' a (Suc i, s, c) k = Some res"
    by (auto split: if_splits option.splits)
  then show ?case
  proof cases
    case stop
    then show ?thesis by blast
  next
    case step
    from Cons.IH [OF this] show ?thesis by (meson Suc_leD)
  qed
qed

lemma matcher_mono:
  "matcher r ic (i, s, c) k = Some res \<Longrightarrow> \<exists>j t c'. i \<le> j \<and> k (j, t, c') = Some res"
proof (induction r arbitrary: i s c k)
  case (Atom a)
  then show ?case by (auto split: list.splits if_splits intro: le_SucI)
next
  case (Seq r1 r2)
  from Seq.prems have "matcher r1 ic (i, s, c) (\<lambda>y. matcher r2 ic y k) = Some res" by simp
  from Seq.IH(1) [OF this] obtain j t c' where j: "i \<le> j" "matcher r2 ic (j, t, c') k = Some res"
    by blast
  from Seq.IH(2) [OF j(2)] j(1) show ?case by (meson le_trans)
next
  case (Alt r1 r2)
  then show ?case by (auto split: option.splits)
next
  case (Repeat g mn mx a)
  then have "rep ic g mn mx a (i, s, c) k = Some res" by simp
  then show ?case by (rule rep_mono)
next
  case (Group n r)
  from Group.prems
  have "matcher r ic (i, s, c) (\<lambda>(j, t, caps'). k (j, t, caps'(n \<mapsto> take (j - i) s))) = Some res"
    by simp
  from Group.IH [OF this] show ?case by auto
next
  case (LookAhead r)
  then show ?case by (auto split: option.splits)
next
  case Bos
  then show ?case by (auto split: if_splits)
next
  case Eos
  then show ?case by (auto split: if_splits)
next
  case Empty
  then show ?case by auto
qed

lemma matcher_end_index: "matcher r ic (q, s, c) Some = Some (e, t, caps) \<Longrightarrow> q \<le> e"
  by (auto dest: matcher_mono)

function split_loop :: "regex \<Rightarrow> bool \<Rightarrow> jsstring \<Rightarrow> nat \<Rightarrow> nat \<Rightarrow> jsstring list" where
  "split_loop r ic s p q =
     (if q < length s then
        (case matcher r ic (q, drop q s, Map.empty) Some of
           None \<Rightarrow> split_loop r ic s p (Suc q)
         | Some (e, t, caps) \<Rightarrow>
             if min e (length s) = p then split_loop r ic s p (Suc q)
             else take (q - p) (drop p s) # split_loop r ic s (min e (length s)) (min e (length s)))
      else [drop p s])"
  by pat_completeness auto
termination
proof (relation "measure (\<lambda>(r, ic, s, p, q). 2 * (length s - q) + (if p = q then 0 else 1))", goal_cases)
  case 1
  then show ?case by simp
next
  case (2 r ic s p q)
  then show ?case by auto
next
  case (3 r ic s p q x2 e y t caps)
  then show ?case by auto
next
  case (4 r ic s p q x2 e y t caps)
  then have "q \<le> e" by (auto dest: matcher_end_index)
  with 4 show ?case by (auto simp: min_def)
qed

declare split_loop.simps [simp del]

definition split_regex :: "regex \<Rightarrow> bool \<Rightarrow> jsstring \<Rightarrow> jsstring list" where
  "split_regex r ic s =
     (if s = [] then (case matcher r ic (0, [], Map.empty) Some of Some y \<Rightarrow> [] | None \<Rightarrow> [[]])
      else split_loop r ic s 0 0)"

fun split_char :: "nat \<Rightarrow> jsstring \<Rightarrow> jsstring list" where
  "split_char sep [] = [[]]"
| "split_char sep (c # s) =
     (if c = sep then [] # split_char sep s
      else (case split_char sep s of [] \<Rightarrow> [[c]] | p # ps \<Rightarrow> (c # p) # ps))"

definition trim :: "jsstring \<Rightarrow> jsstring" where
  "trim s = rev (dropWhile is_white_space (rev (dropWhile is_white_space s)))"

definition exec :: "regex \<Rightarrow> bool \<Rightarrow> jsstring \<Rightarrow> (nat \<times> mstate) option" where
  "exec r ic s = exec_from r ic 0 s"

definition replace_first :: "regex \<Rightarrow> bool \<Rightarrow> jsstring \<Rightarrow> jsstring \<Rightarrow> jsstring" where
  "replace_first r ic replacement s =
     (case exec r ic s of None \<Rightarrow> s | Some (i, j, t, caps) \<Rightarrow> take i s @ replacement @ drop j s)"

definition element :: "'a list \<Rightarrow> nat \<Rightarrow> 'a option" where
  "element xs n = (if n < length xs then Some (xs ! n) else None)"

subsection \<open>The patterns of the source\<close>

definition lits :: "string \<Rightarrow> regex" where
  "lits s = foldr (\<lambda>c r. Seq (Atom (Lit (of_char c))) r) s Empty"

text \<open>\<^verbatim>\<open>/(\d{3,5})\s*(?:x|by)\s*(\d{3,5})/i\<close> of geminiService.ts.\<close>

definition dims_regex :: regex where
  "dims_regex =
     Seq (Group 1 (Repeat True 3 (Some 5) Digit))
    (Seq (Repeat True 0 None Space)
    (Seq (Alt (Atom (Lit (of_char CHR ''x''))) (Seq (Atom (Lit (of_char CHR ''b''))) (Atom (Lit (of_char CHR ''y'')))))
    (Seq (Repeat True 0 None Space)
         (Group 2 (Repeat True 3 (Some 5) Digit)))))"

definition lit :: "char \<Rightarrow> regex" where
  "lit c = Atom (Lit (of_char c))"

definition opt :: "char \<Rightarrow> regex" where
  "opt c = Repeat True 0 (Some 1) (Lit (of_char c))"

definition any_char :: atom where
  "any_char = OneOf [Space, NonSpace]"




definition styles_regex :: regex where
  "styles_regex =
     Seq (Seq (lit CHR ''*'') (Seq (opt CHR ''*'') (Seq (lits ''Style Suggestions'') (Seq (opt CHR '':'')
            (Seq (lit CHR ''*'') (opt CHR ''*''))))))
    (Seq (Group 1 (Repeat False 0 None any_char))
         (LookAhead (Alt Eos (lits ''---''))))"

definition bullet_class :: atom where
  "bullet_class = OneOf [Lit 42, Lit 45, Lit 8226, Digit, Lit 46]"

definition bullet_regex :: regex where
  "bullet_regex = Seq Bos (Atom bullet_class)"

definition marker_regex :: regex where
  "marker_regex = Seq Bos (Seq (Repeat True 1 None bullet_class) (Repeat True 0 None Space))"

definition extractStyles :: "jsstring \<Rightarrow> jsstring list" where
  "extractStyles txt =
     (case exec styles_regex True txt of
        None \<Rightarrow> []
      | Some (i, j, t, caps) \<Rightarrow>
          (case caps 1 of
             None \<Rightarrow> []
           | Some block \<Rightarrow>
               if block = [] then []
               else map (replace_first marker_regex False [])
                      (filter (\<lambda>line. exec bullet_regex False line \<noteq> None)
                         (map trim (split_char 10 block)))))"

section \<open>geminiService.ts: extractDimensionsFromPrompt\<close>

text \<open>
  \<^verbatim>\<open>parseInt\<close> without a radix: leading white space, a sign, a hexadecimal
  prefix, then the longest run of digits of the radix; \<^verbatim>\<open>NaN\<close> without a digit.
\<close>

definition digit_of :: "nat \<Rightarrow> nat option" where
  "digit_of c =
     (if 48 \<le> c \<and> c \<le> 57 then Some (c - 48)
      else if 97 \<le> c \<and> c \<le> 122 then Some (c - 87)
      else if 65 \<le> c \<and> c \<le> 90 then Some (c - 55)
      else None)"

definition in_radix :: "nat \<Rightarrow> nat \<Rightarrow> bool" where
  "in_radix radix c = (case digit_of c of None \<Rightarrow> False | Some d \<Rightarrow> d < radix)"

definition digits_value :: "nat \<Rightarrow> jsstring \<Rightarrow> nat" where
  "digits_value radix ds = foldl (\<lambda>a c. radix * a + (case digit_of c of None \<Rightarrow> 0 | Some d \<Rightarrow> d)) 0 ds"

definition parse_digits :: "rat \<Rightarrow> nat \<Rightarrow> jsstring \<Rightarrow> number" where
  "parse_digits sign radix s =
     (if takeWhile (in_radix radix) s = [] then NaN
      else fl (sign * of_nat (digits_value radix (takeWhile (in_radix radix) s))))"

fun parse_radix :: "rat \<Rightarrow> jsstring \<Rightarrow> number" where
  "parse_radix sign (z # x # s) =
     (if z = 48 \<and> (x = 120 \<or> x = 88) then parse_digits sign 16 s
      else parse_digits sign 10 (z # x # s))"
| "parse_radix sign s = parse_digits sign 10 s"

fun parse_sign :: "jsstring \<Rightarrow> number" where
  "parse_sign (c # s) =
     (if c = 45 then parse_radix (- 1) s
      else if c = 43 then parse_radix 1 s
      else parse_radix 1 (c # s))"
| "parse_sign [] = parse_radix 1 []"

definition parseInt :: "jsstring \<Rightarrow> number" where
  "parseInt s = parse_sign (dropWhile is_white_space s)"

record dimensions =
  width :: number
  height :: number

definition extractDimensionsFromPrompt :: "jsstring \<Rightarrow> dimensions option" where
  "extractDimensionsFromPrompt prompt =
     (case exec dims_regex True prompt of
        None \<Rightarrow> None
      | Some (i, j, t, caps) \<Rightarrow>
          (case (caps 1, caps 2) of
             (Some g1, Some g2) \<Rightarrow> Some \<lparr>width = parseInt g1, height = parseInt g2\<rparr>
           | _ \<Rightarrow> Some \<lparr>width = NaN, height = NaN\<rparr>))"

section \<open>Generator.tsx: the size tier chosen by handleGenerate\<close>

text \<open>
  The part of \<^verbatim>\<open>handleGenerate\<close> that fixes \<^verbatim>\<open>finalAspectRatio\<close> and
  \<^verbatim>\<open>finalSize\<close> from the component state.
\<close>

fun Math_max :: "number \<Rightarrow> number \<Rightarrow> number" where
  "Math_max NaN y = NaN"
| "Math_max x NaN = NaN"
| "Math_max x y = (if num_less x y then y else x)"

definition handleGenerate_sizing ::
  "bool \<Rightarrow> number \<Rightarrow> number \<Rightarrow> jsstring \<Rightarrow> AspectRatio \<Rightarrow> ImageSize \<Rightarrow> AspectRatio \<times> ImageSize" where
  "handleGenerate_sizing useCustomSize customWidth customHeight prompt aspectRatio size' =
     (if useCustomSize then
        (getClosestAspectRatio customWidth customHeight,
         if num_less (Num 2048) (Math_max customWidth customHeight) then K4
         else if num_less (Num 1024) (Math_max customWidth customHeight) then K2
         else K1)
      else
        (case extractDimensionsFromPrompt prompt of
           None \<Rightarrow> (aspectRatio, size')
         | Some extracted \<Rightarrow>
             (getClosestAspectRatio (width extracted) (height extracted),
              if num_less (Num 2048) (Math_max (width extracted) (height extracted)) then K4
              else if num_less (Num 1024) (Math_max (width extracted) (height extracted)) then K2
              else size')))"

section \<open>storageService.ts\<close>

subsection \<open>The browser's local storage\<close>

text \<open>
  The service keeps two JSON documents in \<^verbatim>\<open>localStorage\<close>, under the keys
  \<^verbatim>\<open>lumina_history_v1\<close> (\<^verbatim>\<open>STORAGE_KEY\<close>) and \<^verbatim>\<open>lumina_saved_prompts_v1\<close>
  (\<^verbatim>\<open>SAVED_PROMPTS_KEY\<close>). A key is absent, or holds the JSON text of an array
  (kept here as the array itself: \<^verbatim>\<open>JSON.parse\<close> gives back what
  \<^verbatim>\<open>JSON.stringify\<close> was given for these records of strings and integers), or
  holds a text that \<^verbatim>\<open>JSON.parse\<close> rejects with a \<^verbatim>\<open>SyntaxError\<close>.
\<close>

datatype 'a cell = Absent | Stored 'a | Unparsable

record localStorage =
  lumina_history_v1 :: "HistoryItem list cell"
  lumina_saved_prompts_v1 :: "SavedPrompt list cell"

text \<open>
  The browser state the service touches: the stored documents, the quota of the
  origin (\<open>quota s\<close> holds when the contents \<open>s\<close> fit; \<^verbatim>\<open>setItem\<close> throws
  \<^verbatim>\<open>QuotaExceededError\<close> when the contents after the write would not fit), and
  the messages written with \<^verbatim>\<open>console.error\<close>, oldest first.
\<close>

record browser =
  storage :: localStorage
  quota :: "localStorage \<Rightarrow> bool"
  console :: "string list"

datatype exn = QuotaExceededError | SyntaxError

text \<open>
  How a statement ends: normally with a value, or by throwing. Both carry the
  browser state reached, since writes made before a throw stay.
\<close>

datatype 'a completion = Normal 'a browser | Throw exn browser

definition console_error :: "string \<Rightarrow> browser \<Rightarrow> browser" where
  "console_error msg b = b\<lparr>console := console b @ [msg]\<rparr>"

definition MAX_ITEMS :: nat where
  "MAX_ITEMS = 30"

definition JSON_parse :: "'a cell \<Rightarrow> browser \<Rightarrow> 'a completion" where
  "JSON_parse c b = (case c of Stored v \<Rightarrow> Normal v b | _ \<Rightarrow> Throw SyntaxError b)"

definition setItem_history :: "HistoryItem list \<Rightarrow> browser \<Rightarrow> unit completion" where
  "setItem_history v b =
     (let s = (storage b)\<lparr>lumina_history_v1 := Stored v\<rparr>
      in if quota b s then Normal () (b\<lparr>storage := s\<rparr>) else Throw QuotaExceededError b)"

definition setItem_prompts :: "SavedPrompt list \<Rightarrow> browser \<Rightarrow> unit completion" where
  "setItem_prompts v b =
     (let s = (storage b)\<lparr>lumina_saved_prompts_v1 := Stored v\<rparr>
      in if quota b s then Normal () (b\<lparr>storage := s\<rparr>) else Throw QuotaExceededError b)"

definition removeItem_history :: "browser \<Rightarrow> unit completion" where
  "removeItem_history b = Normal () (b\<lparr>storage := (storage b)\<lparr>lumina_history_v1 := Absent\<rparr>\<rparr>)"

subsection \<open>History\<close>

definition getHistory :: "browser \<Rightarrow> HistoryItem list completion" where
  "getHistory b =
     (case (case lumina_history_v1 (storage b) of
              Absent \<Rightarrow> Normal [] b
            | stored \<Rightarrow> JSON_parse stored b) of
        Normal v b1 \<Rightarrow> Normal v b1
      | Throw e b1 \<Rightarrow> Normal [] (console_error ''Failed to load history'' b1))"

text \<open>
  \<open>now k\<close> is what the \<open>k\<close>-th call of \<^verbatim>\<open>Date.now()\<close> within one invocation
  returns (milliseconds, counted from 0). \<^verbatim>\<open>addToHistory\<close> calls it twice for
  the new item and twice more for the item of the retry.
\<close>

definition addToHistory_try ::
  "(nat \<Rightarrow> nat) \<Rightarrow> HistoryType \<Rightarrow> jsstring \<Rightarrow> jsstring \<Rightarrow> jsstring \<Rightarrow> browser \<Rightarrow> unit completion" where
  "addToHistory_try now ty base64 prompt metadata b =
     (let newItem = \<lparr>h_id = toString (now 0), h_type = ty, h_base64 = base64,
                      h_prompt = prompt, h_timestamp = now 1, h_metadata = Some metadata\<rparr>
      in case getHistory b of
           Throw e b1 \<Rightarrow> Throw e b1
         | Normal currentHistory b1 \<Rightarrow>
             (let updatedHistory = take MAX_ITEMS (newItem # currentHistory)
              in setItem_history updatedHistory b1))"

definition addToHistory_retry ::
  "(nat \<Rightarrow> nat) \<Rightarrow> HistoryType \<Rightarrow> jsstring \<Rightarrow> jsstring \<Rightarrow> jsstring \<Rightarrow> browser \<Rightarrow> unit completion" where
  "addToHistory_retry now ty base64 prompt metadata b =
     (case getHistory b of
        Throw e b1 \<Rightarrow> Throw e b1
      | Normal current b1 \<Rightarrow>
          if length current > 5 then
            (let half = take (length current div 2) current
             in case setItem_history half b1 of
                  Throw e b2 \<Rightarrow> Throw e b2
                | Normal u b2 \<Rightarrow>
                    (let retryHistory =
                       \<lparr>h_id = toString (now 2), h_type = ty, h_base64 = base64,
                        h_prompt = prompt, h_timestamp = now 3, h_metadata = Some metadata\<rparr> # half
                     in setItem_history retryHistory b2))
          else Normal () b1)"

definition addToHistory ::
  "(nat \<Rightarrow> nat) \<Rightarrow> HistoryType \<Rightarrow> jsstring \<Rightarrow> jsstring \<Rightarrow> jsstring \<Rightarrow> browser \<Rightarrow> unit completion" where
  "addToHistory now ty base64 prompt metadata b =
     (case addToHistory_try now ty base64 prompt metadata b of
        Normal u b1 \<Rightarrow> Normal u b1
      | Throw e b1 \<Rightarrow>
          (case addToHistory_retry now ty base64 prompt metadata
                  (console_error ''Failed to save to history. Storage might be full.'' b1) of
             Normal u b2 \<Rightarrow> Normal u b2
           | Throw retryError b2 \<Rightarrow> Normal () (console_error ''Critical storage failure'' b2)))"

definition deleteHistoryItem :: "jsstring \<Rightarrow> browser \<Rightarrow> unit completion" where
  "deleteHistoryItem ident b =
     (case (case getHistory b of
              Throw e b1 \<Rightarrow> Throw e b1
            | Normal h b1 \<Rightarrow> setItem_history (filter (\<lambda>item. h_id item \<noteq> ident) h) b1) of
        Normal u b2 \<Rightarrow> Normal u b2
      | Throw e b2 \<Rightarrow> Normal () (console_error ''Failed to delete item'' b2))"

definition clearAllHistory :: "browser \<Rightarrow> unit completion" where
  "clearAllHistory b = removeItem_history b"

subsection \<open>Saved prompts\<close>

definition getSavedPrompts :: "browser \<Rightarrow> SavedPrompt list completion" where
  "getSavedPrompts b =
     (case (case lumina_saved_prompts_v1 (storage b) of
              Absent \<Rightarrow> Normal [] b
            | stored \<Rightarrow> JSON_parse stored b) of
        Normal v b1 \<Rightarrow> Normal v b1
      | Throw e b1 \<Rightarrow> Normal [] (console_error ''Failed to load saved prompts'' b1))"

definition savePrompt :: "(nat \<Rightarrow> nat) \<Rightarrow> jsstring \<Rightarrow> browser \<Rightarrow> unit completion" where
  "savePrompt now txt b =
     (case (let newPrompt = \<lparr>p_id = toString (now 0), p_text = txt,
                               p_timestamp = now 1, p_tags = None\<rparr>
            in case getSavedPrompts b of
                 Throw e b1 \<Rightarrow> Throw e b1
               | Normal current b1 \<Rightarrow>
                   (let updated = newPrompt # current in setItem_prompts updated b1)) of
        Normal u b2 \<Rightarrow> Normal u b2
      | Throw e b2 \<Rightarrow> Normal () (console_error ''Failed to save prompt'' b2))"

definition deleteSavedPrompt :: "jsstring \<Rightarrow> browser \<Rightarrow> unit completion" where
  "deleteSavedPrompt ident b =
     (case (case getSavedPrompts b of
              Throw e b1 \<Rightarrow> Throw e b1
            | Normal current b1 \<Rightarrow> setItem_prompts (filter (\<lambda>p. p_id p \<noteq> ident) current) b1) of
        Normal u b2 \<Rightarrow> Normal u b2
      | Throw e b2 \<Rightarrow> Normal () (console_error ''Failed to delete prompt'' b2))"

subsection \<open>Observations on the stored collections\<close>

text \<open>
  What the two getters return for a browser state, the browser state and the
  normal return of a completion, the item \<^verbatim>\<open>addToHistory\<close> builds from the
  \<open>k\<close>-th and the following reading of the clock, and the storage contents with
  the history document replaced.
\<close>

definition history_of :: "browser \<Rightarrow> HistoryItem list" where
  "history_of b = (case lumina_history_v1 (storage b) of Stored v \<Rightarrow> v | _ \<Rightarrow> [])"

definition prompts_of :: "browser \<Rightarrow> SavedPrompt list" where
  "prompts_of b = (case lumina_saved_prompts_v1 (storage b) of Stored v \<Rightarrow> v | _ \<Rightarrow> [])"

fun state_of :: "'a completion \<Rightarrow> browser" where
  "state_of (Normal v b) = b"
| "state_of (Throw e b) = b"

fun returns :: "'a completion \<Rightarrow> bool" where
  "returns (Normal v b) = True"
| "returns (Throw e b) = False"

definition item_at ::
  "nat \<Rightarrow> (nat \<Rightarrow> nat) \<Rightarrow> HistoryType \<Rightarrow> jsstring \<Rightarrow> jsstring \<Rightarrow> jsstring \<Rightarrow> HistoryItem" where
  "item_at k now ty base64 prompt metadata =
     \<lparr>h_id = toString (now k), h_type = ty, h_base64 = base64, h_prompt = prompt,
      h_timestamp = now (Suc k), h_metadata = Some metadata\<rparr>"

definition with_history :: "HistoryItem list \<Rightarrow> browser \<Rightarrow> localStorage" where
  "with_history v b = (storage b)\<lparr>lumina_history_v1 := Stored v\<rparr>"

text \<open>A run of calls of \<^verbatim>\<open>addToHistory\<close>, each with its own clock readings.\<close>

datatype history_add = HistoryAdd "nat \<Rightarrow> nat" HistoryType jsstring jsstring jsstring

fun added_item :: "history_add \<Rightarrow> HistoryItem" where
  "added_item (HistoryAdd now ty base64 prompt metadata) = item_at 0 now ty base64 prompt metadata"

fun addAll :: "history_add list \<Rightarrow> browser \<Rightarrow> unit completion" where
  "addAll [] b = Normal () b"
| "addAll (HistoryAdd now ty base64 prompt metadata # rest) b =
     (case addToHistory now ty base64 prompt metadata b of
        Normal u b1 \<Rightarrow> addAll rest b1
      | Throw e b1 \<Rightarrow> Throw e b1)"

text \<open>
  A run of add operations on both collections. \<open>op_times\<close> lists the clock
  readings an operation may turn into an identifier; \<open>increasing_from t ops\<close>
  says that every such reading is later than \<open>t\<close> and than every reading of
  the operations before it.
\<close>

datatype add_op =
    AddToHistory "nat \<Rightarrow> nat" HistoryType jsstring jsstring jsstring
  | SavePrompt "nat \<Rightarrow> nat" jsstring

fun run_op :: "add_op \<Rightarrow> browser \<Rightarrow> unit completion" where
  "run_op (AddToHistory now ty base64 prompt metadata) b = addToHistory now ty base64 prompt metadata b"
| "run_op (SavePrompt now txt) b = savePrompt now txt b"

fun run_ops :: "add_op list \<Rightarrow> browser \<Rightarrow> unit completion" where
  "run_ops [] b = Normal () b"
| "run_ops (x # xs) b =
     (case run_op x b of
        Normal u b1 \<Rightarrow> run_ops xs b1
      | Throw e b1 \<Rightarrow> Throw e b1)"

fun op_times :: "add_op \<Rightarrow> nat list" where
  "op_times (AddToHistory now ty base64 prompt metadata) = [now 0, now 2]"
| "op_times (SavePrompt now txt) = [now 0]"

fun increasing_from :: "nat \<Rightarrow> add_op list \<Rightarrow> bool" where
  "increasing_from t [] = True"
| "increasing_from t (x # xs) =
     (list_all (\<lambda>u. t < u) (op_times x) \<and> increasing_from (foldr max (op_times x) t) xs)"

text \<open>
  The number a decimal identifier denotes, and the invariant of the identifiers
  of both collections: each is the decimal form of a clock reading not later
  than \<open>t\<close>, and no two entries of one collection share one.
\<close>

definition fromDigits :: "jsstring \<Rightarrow> nat" where
  "fromDigits s = foldl (\<lambda>a c. 10 * a + (c - 48)) 0 s"

definition ids_ok :: "nat \<Rightarrow> browser \<Rightarrow> bool" where
  "ids_ok t b \<longleftrightarrow>
     (\<forall>x \<in> set (history_of b). \<exists>u\<le>t. h_id x = toString u) \<and>
     distinct (map h_id (history_of b)) \<and>
     (\<forall>x \<in> set (prompts_of b). \<exists>u\<le>t. p_id x = toString u) \<and>
     distinct (map p_id (prompts_of b))"

text \<open>
  Concrete browser states: nothing stored and no quota limit; and three stored
  items under a quota that admits at most three history entries.
\<close>

definition empty_browser :: browser where
  "empty_browser =
     \<lparr>storage = \<lparr>lumina_history_v1 = Absent, lumina_saved_prompts_v1 = Absent\<rparr>,
      quota = (\<lambda>s. True), console = []\<rparr>"

definition three_items :: "HistoryItem list" where
  "three_items =
     [item_at 0 (\<lambda>k. 3000) GENERATED (js ''c'') (js ''third'') [],
      item_at 0 (\<lambda>k. 2000) EDITED (js ''b'') (js ''second'') [],
      item_at 0 (\<lambda>k. 1000) LOGO (js ''a'') (js ''first'') []]"

definition tight_browser :: browser where
  "tight_browser =
     \<lparr>storage = \<lparr>lumina_history_v1 = Stored three_items, lumina_saved_prompts_v1 = Absent\<rparr>,
      quota = (\<lambda>s. case lumina_history_v1 s of Stored v \<Rightarrow> length v \<le> 3 | _ \<Rightarrow> True),
      console = []\<rparr>"

definition thirty_one_adds :: "history_add list" where
  "thirty_one_adds =
     map (\<lambda>i. HistoryAdd (\<lambda>k. 1000 + i) GENERATED (js ''img'') (js ''cat'') []) [0..<31]"

text \<open>
  Six stored items under a quota of six history entries; a run of adds at
  increasing times; two saves within one millisecond.
\<close>

definition six_items :: "HistoryItem list" where
  "six_items = map (\<lambda>i. item_at 0 (\<lambda>k. 7000 - i) GENERATED (js ''img'') (js ''cat'') []) [0..<6]"

definition six_browser :: browser where
  "six_browser =
     \<lparr>storage = \<lparr>lumina_history_v1 = Stored six_items, lumina_saved_prompts_v1 = Absent\<rparr>,
      quota = (\<lambda>s. case lumina_history_v1 s of Stored v \<Rightarrow> length v \<le> 6 | _ \<Rightarrow> True),
      console = []\<rparr>"

definition two_adds :: "add_op list" where
  "two_adds =
     [SavePrompt (\<lambda>k. 1700000000000) (js ''a cat''),
      AddToHistory (\<lambda>k. 1700000000001 + k) GENERATED (js ''img'') (js ''a cat'') [],
      SavePrompt (\<lambda>k. 1700000000009) (js ''a dog'')]"

definition same_millisecond_saves :: "add_op list" where
  "same_millisecond_saves =
     [SavePrompt (\<lambda>k. 1700000000000) (js ''a cat''), SavePrompt (\<lambda>k. 1700000000000) (js ''a dog'')]"

text \<open>The response of the examples of both extractions.\<close>

definition example_response :: jsstring where
  "example_response =
     js ''**Enhanced Prompt:** A cat. '' @ [10] @ js ''**Style Suggestions:**'' @ [10] @ js ''* Anime''"

section \<open>What a pattern matches\<close>

text \<open>
  The matches of a pattern from a state, as a set: the reading of a pattern that
  does not depend on the order in which the matcher tries the alternatives. The
  matcher above is related to it below.
\<close>

fun lang :: "regex \<Rightarrow> bool \<Rightarrow> mstate \<Rightarrow> mstate set" where
  "lang (Atom a) ic (i, s, c) = {(Suc i, t, c) | t ch. s = ch # t \<and> atom_matches ic a ch}"
| "lang (Seq r1 r2) ic x = (\<Union>y \<in> lang r1 ic x. lang r2 ic y)"
| "lang (Alt r1 r2) ic x = lang r1 ic x \<union> lang r2 ic x"
| "lang (Repeat greedy mn mx a) ic (i, s, c) =
     {(i + length w, t, c) | w t. s = w @ t \<and> mn \<le> length w \<and> (\<forall>m. mx = Some m \<longrightarrow> length w \<le> m) \<and>
        list_all (atom_matches ic a) w}"
| "lang (Group n r) ic (i, s, c) = (\<lambda>(j, t, c'). (j, t, c'(n \<mapsto> take (j - i) s))) ` lang r ic (i, s, c)"
| "lang (LookAhead r) ic (i, s, c) = {(i, s, c') | c'. \<exists>j t. (j, t, c') \<in> lang r ic (i, s, c)}"
| "lang Bos ic (i, s, c) = (if i = 0 then {(i, s, c)} else {})"
| "lang Eos ic (i, s, c) = (if s = [] then {(i, s, c)} else {})"
| "lang Empty ic x = {x}"

fun well_bounded :: "regex \<Rightarrow> bool" where
  "well_bounded (Seq r1 r2) = (well_bounded r1 \<and> well_bounded r2)"
| "well_bounded (Alt r1 r2) = (well_bounded r1 \<and> well_bounded r2)"
| "well_bounded (Repeat greedy mn mx a) = (case mx of None \<Rightarrow> True | Some m \<Rightarrow> mn \<le> m)"
| "well_bounded (Group n r) = well_bounded r"
| "well_bounded (LookAhead r) = well_bounded r"
| "well_bounded r = True"

definition blind :: "continuation \<Rightarrow> bool" where
  "blind k \<longleftrightarrow> (\<forall>j t c c'. (k (j, t, c) = None) = (k (j, t, c') = None))"

subsection \<open>The dimensions pattern in words\<close>

text \<open>
  A number of three to five digits, white space, \<open>x\<close> or \<open>by\<close> in either case,
  white space, a number of three to five digits; and the integer a run of decimal
  digits stands for.
\<close>

definition number3to5 :: "jsstring \<Rightarrow> bool" where
  "number3to5 d \<longleftrightarrow> list_all is_digit d \<and> 3 \<le> length d \<and> length d \<le> 5"

definition separator :: "jsstring \<Rightarrow> bool" where
  "separator sep \<longleftrightarrow> map canonicalize sep = js ''X'' \<or> map canonicalize sep = js ''BY''"

definition dims_pattern :: "jsstring \<Rightarrow> jsstring \<Rightarrow> jsstring \<Rightarrow> bool" where
  "dims_pattern d1 d2 m \<longleftrightarrow>
     (\<exists>ws1 sep ws2. m = d1 @ ws1 @ sep @ ws2 @ d2 \<and> number3to5 d1 \<and> list_all is_white_space ws1 \<and>
        separator sep \<and> list_all is_white_space ws2 \<and> number3to5 d2)"

definition decimal :: "jsstring \<Rightarrow> number" where
  "decimal d = Num (of_nat (digits_value 10 d))"

definition x_or_by :: regex where
  "x_or_by = Alt (Atom (Lit (of_char CHR ''x'')))
                 (Seq (Atom (Lit (of_char CHR ''b''))) (Atom (Lit (of_char CHR ''y''))))"

subsection \<open>The style options in words\<close>

text \<open>
  The reading of \<^verbatim>\<open>extractStyles\<close> without patterns. A label is one or two
  asterisks, the words \<open>Style Suggestions\<close> in any case, a colon or none, and one
  or two asterisks; \<open>asterisks\<close>, \<open>word_ci\<close> and \<open>colon\<close> give the text after
  such a part at the head of a string. The block runs from the end of the first
  label to the first \<open>---\<close> or to the end of the text. Its lines are trimmed;
  a line is kept when its first character is an asterisk, a hyphen, the bullet,
  a digit or a full stop, and loses its leading run of such characters and the
  white space after it.
\<close>

definition is_marker :: "nat \<Rightarrow> bool" where
  "is_marker c \<longleftrightarrow> c = 42 \<or> c = 45 \<or> c = 8226 \<or> is_digit c \<or> c = 46"

definition style_lines :: "jsstring \<Rightarrow> jsstring list" where
  "style_lines block =
     map (\<lambda>line. dropWhile is_white_space (dropWhile is_marker line))
       (filter (\<lambda>line. line \<noteq> [] \<and> is_marker (hd line)) (map trim (split_char 10 block)))"

fun before_rule :: "jsstring \<Rightarrow> jsstring" where
  "before_rule [] = []"
| "before_rule (c # t) = (if take 3 (c # t) = js ''---'' then [] else c # before_rule t)"

definition asterisks :: "jsstring \<Rightarrow> jsstring option" where
  "asterisks s =
     (case s of
        [] \<Rightarrow> None
      | a # t \<Rightarrow>
          if a \<noteq> 42 then None
          else (case t of [] \<Rightarrow> Some t | b # u \<Rightarrow> if b = 42 then Some u else Some t))"

definition word_ci :: "string \<Rightarrow> jsstring \<Rightarrow> jsstring option" where
  "word_ci w s =
     (if map canonicalize (take (length w) s) = map canonicalize (js w) then Some (drop (length w) s)
      else None)"

definition colon :: "jsstring \<Rightarrow> jsstring" where
  "colon s = (case s of [] \<Rightarrow> s | c # t \<Rightarrow> if c = 58 then t else s)"

definition styles_label :: "jsstring \<Rightarrow> jsstring option" where
  "styles_label s =
     Option.bind (asterisks s) (\<lambda>s1.
     Option.bind (word_ci ''Style Suggestions'' s1) (\<lambda>s2. asterisks (colon s2)))"

fun after_styles_label :: "jsstring \<Rightarrow> jsstring option" where
  "after_styles_label [] = None"
| "after_styles_label (c # s) =
     (case styles_label (c # s) of Some t \<Rightarrow> Some t | None \<Rightarrow> after_styles_label s)"

definition style_options :: "jsstring \<Rightarrow> jsstring list" where
  "style_options s = (case after_styles_label s of None \<Rightarrow> [] | Some t \<Rightarrow> style_lines (before_rule t))"

definition styles_label_regex :: regex where
  "styles_label_regex =
     Seq (lit CHR ''*'') (Seq (opt CHR ''*'') (Seq (lits ''Style Suggestions'') (Seq (opt CHR '':'')
            (Seq (lit CHR ''*'') (opt CHR ''*'')))))"

subsection \<open>The enhanced prompt in words\<close>

text \<open>
  The reading of the extraction of the enhanced prompt without patterns. The
  fallback: \<open>plain_label\<close> gives the text after the words \<open>Enhanced Prompt\<close> (any
  case) and a colon, if there is one, at the head of a string;
  \<open>after_plain_label\<close> gives the text after the first such label of a text and
  \<open>before_plain_label\<close> the text before it.
\<close>

definition plain_label :: "jsstring \<Rightarrow> jsstring option" where
  "plain_label s = map_option colon (word_ci ''Enhanced Prompt'' s)"




text \<open>
  The primary capture. \<open>enhanced_label\<close> gives the text after a label at the head
  of a string: one or two asterisks, the words \<open>Enhanced Prompt\<close> in any case, a
  colon or none, and one or two asterisks; \<open>after_enhanced_label\<close> gives the text
  after the first such label of a text. A section line starts with one or two
  asterisks and \<open>Style\<close> or \<open>Options\<close> (any case), or with \<open>---\<close>; a section line
  break is a line feed that white space and a section line follow;
  \<open>before_section\<close> is the text before the first section line break and
  \<open>has_section\<close> says that there is one. \<open>section_break\<close> is what the lookahead
  of the pattern accepts.
\<close>

definition emphasised :: "string \<Rightarrow> jsstring \<Rightarrow> bool" where
  "emphasised w r = (case asterisks r of None \<Rightarrow> False | Some t \<Rightarrow> word_ci w t \<noteq> None)"



definition enhanced_label :: "jsstring \<Rightarrow> jsstring option" where
  "enhanced_label s =
     Option.bind (asterisks s) (\<lambda>s1.
     Option.bind (word_ci ''Enhanced Prompt'' s1) (\<lambda>s2. asterisks (colon s2)))"


definition section_line :: "jsstring \<Rightarrow> bool" where
  "section_line r \<longleftrightarrow> emphasised ''Style'' r \<or> emphasised ''Options'' r \<or> take 3 r = js ''---''"

definition section_line_break :: "jsstring \<Rightarrow> bool" where
  "section_line_break u =
     (case u of [] \<Rightarrow> False | ch # v \<Rightarrow> ch = 10 \<and> section_line (dropWhile is_white_space v))"

fun before_section :: "jsstring \<Rightarrow> jsstring" where
  "before_section [] = []"
| "before_section (c # r) = (if section_line_break (c # r) then [] else c # before_section r)"






section \<open>Verified properties\<close>

subsection \<open>Storage service\<close>

lemma getHistory_eq:
  "getHistory b = Normal (history_of b)
     (if lumina_history_v1 (storage b) = Unparsable then console_error ''Failed to load history'' b else b)"
  by (simp add: getHistory_def history_of_def JSON_parse_def split: cell.splits)

lemma getSavedPrompts_eq:
  "getSavedPrompts b = Normal (prompts_of b)
     (if lumina_saved_prompts_v1 (storage b) = Unparsable
      then console_error ''Failed to load saved prompts'' b else b)"
  by (simp add: getSavedPrompts_def prompts_of_def JSON_parse_def split: cell.splits)

lemma storage_console_error [simp]: "storage (console_error m b) = storage b"
  and quota_console_error [simp]: "quota (console_error m b) = quota b"
  and console_console_error [simp]: "console (console_error m b) = console b @ [m]"
  by (simp_all add: console_error_def)

lemma history_of_console_error [simp]: "history_of (console_error m b) = history_of b"
  and prompts_of_console_error [simp]: "prompts_of (console_error m b) = prompts_of b"
  and with_history_console_error [simp]: "with_history v (console_error m b) = with_history v b"
  by (simp_all add: history_of_def prompts_of_def with_history_def)

lemma setItem_history_eq:
  "setItem_history v b =
     (if quota b (with_history v b) then Normal () (b\<lparr>storage := with_history v b\<rparr>)
      else Throw QuotaExceededError b)"
  by (simp add: setItem_history_def with_history_def)

lemma addToHistory_first_ok:
  assumes "quota b (with_history (take MAX_ITEMS (item_at 0 now ty b64 p md # history_of b)) b)"
  shows "\<exists>b1. addToHistory now ty b64 p md b = Normal () b1
           \<and> storage b1 = with_history (take MAX_ITEMS (item_at 0 now ty b64 p md # history_of b)) b
           \<and> quota b1 = quota b"
  using assms
  by (simp add: addToHistory_def addToHistory_try_def getHistory_eq setItem_history_eq item_at_def
        Let_def with_history_def)

lemma addToHistory_retry_eq:
  assumes "\<not> quota b (with_history (take MAX_ITEMS (item_at 0 now ty b64 p md # history_of b)) b)"
  shows "\<exists>b1. addToHistory now ty b64 p md b = Normal () b1 \<and> quota b1 = quota b \<and>
           storage b1 =
             (let cur = history_of b; half = take (length cur div 2) cur
              in if 5 < length cur \<and> quota b (with_history half b) then
                   (if quota b (with_history (item_at 2 now ty b64 p md # half) b)
                    then with_history (item_at 2 now ty b64 p md # half) b
                    else with_history half b)
                 else storage b) \<and>
           (let cur = history_of b; half = take (length cur div 2) cur
              in if 5 < length cur \<and> \<not> (quota b (with_history half b) \<and>
                      quota b (with_history (item_at 2 now ty b64 p md # half) b))
                 then console b1 = console b @
                   [''Failed to save to history. Storage might be full.'', ''Critical storage failure'']
                 else console b1 = console b @
                   (if lumina_history_v1 (storage b) = Unparsable
                    then [''Failed to load history'', ''Failed to save to history. Storage might be full.'',
                          ''Failed to load history'']
                    else [''Failed to save to history. Storage might be full.'']))"
  using assms
  apply (simp add: addToHistory_def addToHistory_try_def addToHistory_retry_def getHistory_eq
      setItem_history_eq item_at_def Let_def split: completion.splits)
  apply (auto simp: with_history_def history_of_def Let_def numeral_2_eq_2 numeral_3_eq_3
      split: cell.splits)
  done

lemma history_of_storage: "storage b1 = with_history v b \<Longrightarrow> history_of b1 = v"
  by (simp add: history_of_def with_history_def)

lemma prompts_of_storage: "storage b1 = with_history v b \<Longrightarrow> prompts_of b1 = prompts_of b"
  by (simp add: prompts_of_def with_history_def)

lemma take_take_Cons: "take n (x # take n xs) = take n (x # xs)"
  by (cases n) simp_all

lemma addAll_unbounded:
  assumes "\<forall>s. quota b s" and "length (history_of b) \<le> MAX_ITEMS"
  shows "\<exists>b1. addAll adds b = Normal () b1 \<and> (\<forall>s. quota b1 s) \<and>
           history_of b1 = take MAX_ITEMS (rev (map added_item adds) @ history_of b)"
  using assms
proof (induction adds arbitrary: b)
  case Nil
  then show ?case by simp
next
  case (Cons a adds)
  obtain now ty b64 p md where a: "a = HistoryAdd now ty b64 p md" by (cases a)
  from Cons.prems addToHistory_first_ok [of b now ty b64 p md]
  obtain b1 where b1: "addToHistory now ty b64 p md b = Normal () b1"
      "storage b1 = with_history (take MAX_ITEMS (item_at 0 now ty b64 p md # history_of b)) b"
      "quota b1 = quota b"
    by auto
  have h1: "history_of b1 = take MAX_ITEMS (item_at 0 now ty b64 p md # history_of b)"
    using b1(2) by (rule history_of_storage)
  have "\<forall>s. quota b1 s" "length (history_of b1) \<le> MAX_ITEMS"
    using b1(3) Cons.prems h1 by simp_all
  from Cons.IH [OF this]
  obtain b2 where b2: "addAll adds b1 = Normal () b2" "\<forall>s. quota b2 s"
      "history_of b2 = take MAX_ITEMS (rev (map added_item adds) @ history_of b1)"
    by auto
  have "take MAX_ITEMS (rev (map added_item adds) @ take MAX_ITEMS (item_at 0 now ty b64 p md # history_of b))
      = take MAX_ITEMS (rev (map added_item adds) @ item_at 0 now ty b64 p md # history_of b)"
    by (simp add: take_add min_def)
  with b1 b2 h1 a show ?case by simp
qed

lemma fromDigits_toString: "fromDigits (toString n) = n"
proof (induction n rule: toString.induct)
  case (1 n)
  show ?case
  proof (cases "n < 10")
    case True
    then show ?thesis by (simp add: toString.simps [of n] fromDigits_def)
  next
    case False
    with 1 have "fromDigits (toString (n div 10)) = n div 10" by simp
    with False show ?thesis
      by (simp add: toString.simps [of n] fromDigits_def)
  qed
qed

lemma toString_inj: "toString m = toString n \<Longrightarrow> m = n"
  by (metis fromDigits_toString)

lemma ids_ok_mono: "ids_ok t b \<Longrightarrow> t \<le> t' \<Longrightarrow> ids_ok t' b"
  unfolding ids_ok_def by (meson le_trans)

lemma savePrompt_eq:
  "\<exists>b1. savePrompt now txt b = Normal () b1 \<and> quota b1 = quota b \<and>
     lumina_history_v1 (storage b1) = lumina_history_v1 (storage b) \<and>
     prompts_of b1 = (if quota b ((storage b)\<lparr>lumina_saved_prompts_v1 :=
                           Stored (\<lparr>p_id = toString (now 0), p_text = txt, p_timestamp = now 1, p_tags = None\<rparr> # prompts_of b)\<rparr>)
                      then \<lparr>p_id = toString (now 0), p_text = txt, p_timestamp = now 1, p_tags = None\<rparr> # prompts_of b
                      else prompts_of b)"
  by (auto simp add: savePrompt_def getSavedPrompts_eq setItem_prompts_def Let_def prompts_of_def
      split: completion.splits)

lemma fresh_id_history:
  assumes "\<forall>x \<in> set xs. \<exists>u\<le>t. h_id x = toString u" "t < n"
  shows "toString n \<notin> h_id ` set xs"
  using assms toString_inj by fastforce

lemma fresh_id_prompts:
  assumes "\<forall>x \<in> set xs. \<exists>u\<le>t. p_id x = toString u" "t < n"
  shows "toString n \<notin> p_id ` set xs"
  using assms toString_inj by fastforce

lemma history_after_add:
  "\<exists>b1. addToHistory now ty b64 p md b = Normal () b1 \<and>
     lumina_saved_prompts_v1 (storage b1) = lumina_saved_prompts_v1 (storage b) \<and>
     (history_of b1 = take MAX_ITEMS (item_at 0 now ty b64 p md # history_of b) \<or>
      history_of b1 = history_of b \<or>
      history_of b1 = take (length (history_of b) div 2) (history_of b) \<or>
      history_of b1 = item_at 2 now ty b64 p md # take (length (history_of b) div 2) (history_of b))"
proof (cases "quota b (with_history (take MAX_ITEMS (item_at 0 now ty b64 p md # history_of b)) b)")
  case True
  from addToHistory_first_ok [OF True] obtain b1 where
    "addToHistory now ty b64 p md b = Normal () b1"
    "storage b1 = with_history (take MAX_ITEMS (item_at 0 now ty b64 p md # history_of b)) b" by blast
  then show ?thesis
    by (auto simp: history_of_storage with_history_def)
next
  case False
  from addToHistory_retry_eq [OF False] obtain b1 where b1:
    "addToHistory now ty b64 p md b = Normal () b1"
    "storage b1 =
             (let cur = history_of b; half = take (length cur div 2) cur
              in if 5 < length cur \<and> quota b (with_history half b) then
                   (if quota b (with_history (item_at 2 now ty b64 p md # half) b)
                    then with_history (item_at 2 now ty b64 p md # half) b
                    else with_history half b)
                 else storage b)" by blast
  show ?thesis
    apply (rule exI [of _ b1])
    using b1
    apply (simp add: Let_def split: if_splits)
      apply (simp_all add: history_of_def with_history_def)
    done
qed

lemma ids_ok_addToHistory:
  assumes "ids_ok t b" "t < now 0" "t < now 2"
  shows "\<exists>b1. addToHistory now ty b64 p md b = Normal () b1 \<and> ids_ok (max (now 0) (max (now 2) t)) b1"
proof -
  from history_after_add [of now ty b64 p md b] obtain b1 where b1:
    "addToHistory now ty b64 p md b = Normal () b1"
    "lumina_saved_prompts_v1 (storage b1) = lumina_saved_prompts_v1 (storage b)"
    "history_of b1 = take MAX_ITEMS (item_at 0 now ty b64 p md # history_of b) \<or>
      history_of b1 = history_of b \<or>
      history_of b1 = take (length (history_of b) div 2) (history_of b) \<or>
      history_of b1 = item_at 2 now ty b64 p md # take (length (history_of b) div 2) (history_of b)"
    by blast
  let ?t = "max (now 0) (max (now 2) t)"
  let ?P = "\<lambda>xs. (\<forall>x \<in> set xs. \<exists>u\<le>?t. h_id x = toString u) \<and> distinct (map h_id xs)"
  have cur: "?P (history_of b)" and bound: "\<forall>x \<in> set (history_of b). \<exists>u\<le>t. h_id x = toString u"
    using assms(1) unfolding ids_ok_def by (meson max.cobounded2 le_trans)+
  have P_take: "?P (take n xs)" if "?P xs" for n xs
  proof -
    have "set (take n xs) \<subseteq> set xs" by (rule set_take_subset)
    moreover have "distinct (map h_id (take n xs))"
      using that by (simp add: take_map [symmetric] del: take_map)
    ultimately show ?thesis using that by blast
  qed
  have P_cons: "?P (item_at k now ty b64 p md # take n (history_of b))" if "k = 0 \<or> k = 2" for k n
  proof -
    have "t < now k" using that assms by auto
    from fresh_id_history [OF bound this] have "toString (now k) \<notin> h_id ` set (history_of b)" .
    moreover have "set (take n (history_of b)) \<subseteq> set (history_of b)" by (rule set_take_subset)
    ultimately have "toString (now k) \<notin> h_id ` set (take n (history_of b))" by blast
    moreover have "now k \<le> ?t" using that by auto
    moreover have "h_id (item_at k now ty b64 p md) = toString (now k)" by (simp add: item_at_def)
    ultimately show ?thesis using P_take [OF cur, of n] by auto
  qed
  have c0: "?P (take MAX_ITEMS (item_at 0 now ty b64 p md # history_of b))"
    using P_take [OF P_cons [of 0 "length (history_of b)"], of MAX_ITEMS] by simp
  have c1: "?P (take (length (history_of b) div 2) (history_of b))"
    by (rule P_take [OF cur])
  have c2: "?P (item_at 2 now ty b64 p md # take (length (history_of b) div 2) (history_of b))"
    by (rule P_cons) simp
  have "?P (history_of b1)"
    using b1(3) cur c0 c1 c2 by (elim disjE) simp_all
  moreover have "prompts_of b1 = prompts_of b" using b1(2) by (simp add: prompts_of_def)
  moreover have "(\<forall>x \<in> set (prompts_of b). \<exists>u\<le>?t. p_id x = toString u) \<and> distinct (map p_id (prompts_of b))"
    using assms(1) unfolding ids_ok_def by (meson max.cobounded2 le_trans)
  ultimately show ?thesis using b1(1) unfolding ids_ok_def by auto
qed

lemma ids_ok_savePrompt:
  assumes "ids_ok t b" "t < now 0"
  shows "\<exists>b1. savePrompt now str b = Normal () b1 \<and> ids_ok (max (now 0) t) b1"
proof -
  from savePrompt_eq [of now str b] obtain b1 where b1:
    "savePrompt now str b = Normal () b1"
    "lumina_history_v1 (storage b1) = lumina_history_v1 (storage b)"
    "prompts_of b1 = \<lparr>p_id = toString (now 0), p_text = str, p_timestamp = now 1, p_tags = None\<rparr> # prompts_of b
      \<or> prompts_of b1 = prompts_of b"
    by metis
  have bound: "\<forall>x \<in> set (prompts_of b). \<exists>u\<le>t. p_id x = toString u"
    using assms(1) unfolding ids_ok_def by blast
  from fresh_id_prompts [OF bound assms(2)] have fresh: "toString (now 0) \<notin> p_id ` set (prompts_of b)" .
  have old: "ids_ok (max (now 0) t) b" using assms(1) by (rule ids_ok_mono) simp
  have "history_of b1 = history_of b" using b1(2) by (simp add: history_of_def)
  moreover have "\<exists>u\<le>max (now 0) t. toString (now 0) = toString u"
    by (rule exI [of _ "now 0"]) simp
  ultimately have "ids_ok (max (now 0) t) b1"
    using b1(3) old fresh unfolding ids_ok_def by (elim disjE) auto
  with b1(1) show ?thesis by blast
qed

lemma ids_ok_run_op:
  assumes "ids_ok t b" "list_all (\<lambda>u. t < u) (op_times x)"
  shows "\<exists>b1. run_op x b = Normal () b1 \<and> ids_ok (foldr max (op_times x) t) b1"
proof (cases x)
  case (AddToHistory now ty b64 p md)
  with assms(2) have "t < now 0" "t < now 2" by simp_all
  from ids_ok_addToHistory [of t b now ty b64 p md, OF assms(1) this] AddToHistory
  show ?thesis by simp
next
  case (SavePrompt now str)
  with assms(2) have "t < now 0" by simp
  from ids_ok_savePrompt [of t b now str, OF assms(1) this] SavePrompt show ?thesis by simp
qed

lemma ids_ok_run_ops:
  assumes "ids_ok t b" "increasing_from t ops"
  shows "\<exists>b1 t1. run_ops ops b = Normal () b1 \<and> ids_ok t1 b1"
  using assms
proof (induction ops arbitrary: t b)
  case Nil
  then show ?case by auto
next
  case (Cons x xs)
  from Cons.prems(2) have lt: "list_all (\<lambda>u. t < u) (op_times x)"
    and inc: "increasing_from (foldr max (op_times x) t) xs"
    by (simp_all only: increasing_from.simps)
  from ids_ok_run_op [OF Cons.prems(1) lt] obtain b1 where
    b1: "run_op x b = Normal () b1" "ids_ok (foldr max (op_times x) t) b1" by blast
  from Cons.IH [OF b1(2) inc] b1(1) show ?case by simp
qed

subsection \<open>Prepending and the capacity of 30\<close>

text \<open>
  Claim C3. When the write of \<^verbatim>\<open>addToHistory\<close> is accepted, a following
  \<^verbatim>\<open>getHistory\<close> returns the new item first, before the 29 newest earlier
  items. Starting with no stored history and no write refused, after 31 calls
  \<^verbatim>\<open>getHistory\<close> returns the items of the last 30 calls, newest first: 30
  items, the first-added one dropped (it is no member of the result when the
  identifiers of the 31 items differ).
\<close>

theorem addToHistory_prepends_and_truncates:
  "(quota b (with_history (take MAX_ITEMS (item_at 0 now ty base64 prompt metadata # history_of b)) b) \<longrightarrow>
      (\<exists>b1 b2. addToHistory now ty base64 prompt metadata b = Normal () b1 \<and>
          getHistory b1 = Normal (item_at 0 now ty base64 prompt metadata # take 29 (history_of b)) b2)) \<and>
   (lumina_history_v1 (storage b) = Absent \<and> (\<forall>s. quota b s) \<and> length adds = 31 \<longrightarrow>
      (\<exists>b1 b2. addAll adds b = Normal () b1 \<and>
          getHistory b1 = Normal (rev (map added_item (tl adds))) b2 \<and>
          length (rev (map added_item (tl adds))) = 30 \<and>
          (distinct (map (h_id \<circ> added_item) adds) \<longrightarrow>
             added_item (hd adds) \<notin> set (rev (map added_item (tl adds))))))"
proof (intro conjI impI)
  assume q: "quota b (with_history (take MAX_ITEMS (item_at 0 now ty base64 prompt metadata # history_of b)) b)"
  from addToHistory_first_ok [OF q] obtain b1 where
    b1: "addToHistory now ty base64 prompt metadata b = Normal () b1"
      "storage b1 = with_history (take MAX_ITEMS (item_at 0 now ty base64 prompt metadata # history_of b)) b"
    by blast
  have "history_of b1 = item_at 0 now ty base64 prompt metadata # take 29 (history_of b)"
    using history_of_storage [OF b1(2)] by (simp add: MAX_ITEMS_def)
  with b1(1) getHistory_eq [of b1]
  show "\<exists>b1 b2. addToHistory now ty base64 prompt metadata b = Normal () b1 \<and>
          getHistory b1 = Normal (item_at 0 now ty base64 prompt metadata # take 29 (history_of b)) b2"
    by metis
next
  assume a: "lumina_history_v1 (storage b) = Absent \<and> (\<forall>s. quota b s) \<and> length adds = 31"
  then have empty: "history_of b = []" by (simp add: history_of_def)
  from a obtain x rest where adds: "adds = x # rest" "length rest = 30"
    by (cases adds) auto
  from a empty addAll_unbounded [of b adds] obtain b1 where
    b1: "addAll adds b = Normal () b1" "history_of b1 = take MAX_ITEMS (rev (map added_item adds))"
    by auto
  have h: "history_of b1 = rev (map added_item (tl adds))"
    using b1(2) adds by (simp add: MAX_ITEMS_def)
  have "distinct (map (h_id \<circ> added_item) adds) \<longrightarrow>
          added_item (hd adds) \<notin> set (rev (map added_item (tl adds)))"
    using adds by auto
  with b1(1) h getHistory_eq [of b1] adds(2)
  show "\<exists>b1 b2. addAll adds b = Normal () b1 \<and>
          getHistory b1 = Normal (rev (map added_item (tl adds))) b2 \<and>
          length (rev (map added_item (tl adds))) = 30 \<and>
          (distinct (map (h_id \<circ> added_item) adds) \<longrightarrow>
             added_item (hd adds) \<notin> set (rev (map added_item (tl adds))))"
    using adds(1) by (metis length_map length_rev list.sel(3))
qed

lemma thirty_one_adds_length: "length thirty_one_adds = 31"
  by (simp add: thirty_one_adds_def)

lemma thirty_one_adds_distinct: "distinct (map (h_id \<circ> added_item) thirty_one_adds)"
proof -
  have "inj_on (\<lambda>i. toString (1000 + i)) (set [0..<31])"
    by (rule inj_onI) (auto dest: toString_inj)
  then show ?thesis
    by (simp add: thirty_one_adds_def comp_def item_at_def distinct_map)
qed

text \<open>
  The empty browser, one add, and 31 adds one millisecond apart.
\<close>

theorem addToHistory_prepends_and_truncates_witness:
  "quota empty_browser (with_history (take MAX_ITEMS
       (item_at 0 (\<lambda>k. 1000) GENERATED (js ''img'') (js ''cat'') [] # history_of empty_browser)) empty_browser) \<and>
   (\<exists>b1 b2. addToHistory (\<lambda>k. 1000) GENERATED (js ''img'') (js ''cat'') [] empty_browser = Normal () b1 \<and>
      getHistory b1 = Normal (item_at 0 (\<lambda>k. 1000) GENERATED (js ''img'') (js ''cat'') [] #
                                take 29 (history_of empty_browser)) b2) \<and>
   lumina_history_v1 (storage empty_browser) = Absent \<and> (\<forall>s. quota empty_browser s) \<and>
   length thirty_one_adds = 31 \<and> distinct (map (h_id \<circ> added_item) thirty_one_adds) \<and>
   (\<exists>b1 b2. addAll thirty_one_adds empty_browser = Normal () b1 \<and>
      getHistory b1 = Normal (rev (map added_item (tl thirty_one_adds))) b2 \<and>
      length (rev (map added_item (tl thirty_one_adds))) = 30 \<and>
      added_item (hd thirty_one_adds) \<notin> set (rev (map added_item (tl thirty_one_adds))))"
proof -
  have q: "\<forall>s. quota empty_browser s" and a: "lumina_history_v1 (storage empty_browser) = Absent"
    by (simp_all add: empty_browser_def)
  note t = addToHistory_prepends_and_truncates
    [of empty_browser "\<lambda>k. 1000" GENERATED "js ''img''" "js ''cat''" "[]" thirty_one_adds]
  from q have q1: "quota empty_browser (with_history (take MAX_ITEMS
       (item_at 0 (\<lambda>k. 1000) GENERATED (js ''img'') (js ''cat'') [] # history_of empty_browser)) empty_browser)"
    by blast
  from t q1 q a thirty_one_adds_length thirty_one_adds_distinct show ?thesis
    by blast
qed

subsection \<open>The quota fallback\<close>

lemma returns_addToHistory: "returns (addToHistory now ty b64 p md b)"
  by (simp add: addToHistory_def split: completion.splits)

text \<open>
  Claim C4, as the code has it. \<^verbatim>\<open>addToHistory\<close> always returns normally.
  When its first write is refused, it retries only if more than 5 items are
  stored: it writes the newer half (the first \<open>n div 2\<close> entries) and then that
  half with the new item in front. If the write of the half is refused the storage
  is unchanged; if only the retry is refused the storage keeps the half without the
  new item; both failures are logged as \<^verbatim>\<open>Critical storage failure\<close>. With 5
  or fewer stored items nothing is written and only the first failure is logged.
\<close>

theorem addToHistory_retries_only_above_five:
  "returns (addToHistory now ty base64 prompt metadata b) \<and>
   (\<not> quota b (with_history (take MAX_ITEMS (item_at 0 now ty base64 prompt metadata # history_of b)) b) \<longrightarrow>
     (\<exists>b1. addToHistory now ty base64 prompt metadata b = Normal () b1 \<and>
        storage b1 =
          (let cur = history_of b; half = take (length cur div 2) cur
           in if 5 < length cur \<and> quota b (with_history half b) then
                (if quota b (with_history (item_at 2 now ty base64 prompt metadata # half) b)
                 then with_history (item_at 2 now ty base64 prompt metadata # half) b
                 else with_history half b)
              else storage b) \<and>
        (let cur = history_of b; half = take (length cur div 2) cur
         in if 5 < length cur \<and> \<not> (quota b (with_history half b) \<and>
                 quota b (with_history (item_at 2 now ty base64 prompt metadata # half) b))
            then console b1 = console b @
              [''Failed to save to history. Storage might be full.'', ''Critical storage failure'']
            else console b1 = console b @
              (if lumina_history_v1 (storage b) = Unparsable
               then [''Failed to load history'', ''Failed to save to history. Storage might be full.'',
                     ''Failed to load history'']
               else [''Failed to save to history. Storage might be full.'']))))"
  using returns_addToHistory [of now ty base64 prompt metadata b]
    addToHistory_retry_eq [of b now ty base64 prompt metadata]
  by blast

lemma six_items_length: "length six_items = 6"
  by (simp add: six_items_def)

text \<open>
  Six stored items and a quota of six entries: the first write (seven entries) is
  refused, the retry stores the new item before the three newest.
\<close>

theorem addToHistory_retries_only_above_five_witness:
  "\<not> quota six_browser (with_history (take MAX_ITEMS
        (item_at 0 (\<lambda>k. 9000) LOGO (js ''img'') (js ''dog'') [] # history_of six_browser)) six_browser) \<and>
   (\<exists>b1. addToHistory (\<lambda>k. 9000) LOGO (js ''img'') (js ''dog'') [] six_browser = Normal () b1 \<and>
      storage b1 = with_history (item_at 2 (\<lambda>k. 9000) LOGO (js ''img'') (js ''dog'') [] # take 3 six_items) six_browser \<and>
      console b1 = [''Failed to save to history. Storage might be full.''])"
proof -
  have h: "history_of six_browser = six_items"
    by (simp add: six_browser_def history_of_def)
  have q: "quota six_browser (with_history v six_browser) = (length v \<le> 6)" for v
    by (simp add: six_browser_def with_history_def)
  have c: "console six_browser = []" "lumina_history_v1 (storage six_browser) \<noteq> Unparsable"
    by (simp_all add: six_browser_def)
  have f: "\<not> quota six_browser (with_history (take MAX_ITEMS
        (item_at 0 (\<lambda>k. 9000) LOGO (js ''img'') (js ''dog'') [] # history_of six_browser)) six_browser)"
    by (simp add: h q six_items_length MAX_ITEMS_def)
  from addToHistory_retries_only_above_five [of "\<lambda>k. 9000" LOGO "js ''img''" "js ''dog''" "[]" six_browser] f
  show ?thesis
    by (simp add: h q c six_items_length Let_def)
qed

text \<open>
  Against claim C4 as stated: with three stored items and a quota of three
  entries the first write is refused and no retry is made, although the new item
  in front of the newer half would fit. The storage is unchanged.
\<close>

theorem addToHistory_small_history_no_retry:
  "\<not> quota tight_browser (with_history (take MAX_ITEMS
        (item_at 0 (\<lambda>k. 9000) LOGO (js ''img'') (js ''dog'') [] # history_of tight_browser)) tight_browser) \<and>
   quota tight_browser (with_history
        (item_at 2 (\<lambda>k. 9000) LOGO (js ''img'') (js ''dog'') [] #
           take (length (history_of tight_browser) div 2) (history_of tight_browser)) tight_browser) \<and>
   addToHistory (\<lambda>k. 9000) LOGO (js ''img'') (js ''dog'') [] tight_browser =
     Normal () (console_error ''Failed to save to history. Storage might be full.'' tight_browser)"
  by (simp add: addToHistory_def addToHistory_try_def addToHistory_retry_def getHistory_eq
      setItem_history_eq Let_def with_history_def history_of_def tight_browser_def three_items_def
      MAX_ITEMS_def console_error_def)

subsection \<open>Identifiers\<close>

text \<open>
  Claim C9, as the code has it. An identifier is the decimal form of the clock
  reading, so it is as unique as the reading: starting with both collections
  absent, after every run of \<^verbatim>\<open>addToHistory\<close> and \<^verbatim>\<open>savePrompt\<close> calls whose
  clock readings are later than those of the calls before, no two entries of the
  same collection share an identifier.
\<close>

theorem identifiers_unique_when_clock_advances:
  "lumina_history_v1 (storage b) = Absent \<and> lumina_saved_prompts_v1 (storage b) = Absent \<and>
   increasing_from 0 ops \<longrightarrow>
     (\<exists>b1. run_ops ops b = Normal () b1 \<and>
        distinct (map h_id (history_of b1)) \<and> distinct (map p_id (prompts_of b1)))"
proof
  assume a: "lumina_history_v1 (storage b) = Absent \<and> lumina_saved_prompts_v1 (storage b) = Absent \<and>
   increasing_from 0 ops"
  then have "ids_ok 0 b" by (simp add: ids_ok_def history_of_def prompts_of_def)
  from ids_ok_run_ops [OF this] a obtain b1 t1 where "run_ops ops b = Normal () b1" "ids_ok t1 b1"
    by blast
  then show "\<exists>b1. run_ops ops b = Normal () b1 \<and>
        distinct (map h_id (history_of b1)) \<and> distinct (map p_id (prompts_of b1))"
    by (auto simp: ids_ok_def)
qed

text \<open>
  A save, an add and a save at increasing times.
\<close>

theorem identifiers_unique_when_clock_advances_witness:
  "lumina_history_v1 (storage empty_browser) = Absent \<and>
   lumina_saved_prompts_v1 (storage empty_browser) = Absent \<and> increasing_from 0 two_adds \<and>
   (\<exists>b1. run_ops two_adds empty_browser = Normal () b1 \<and>
        distinct (map h_id (history_of b1)) \<and> distinct (map p_id (prompts_of b1)))"
proof -
  have "lumina_history_v1 (storage empty_browser) = Absent"
    "lumina_saved_prompts_v1 (storage empty_browser) = Absent" "increasing_from 0 two_adds"
    by (simp_all add: empty_browser_def two_adds_def)
  with identifiers_unique_when_clock_advances [of empty_browser two_adds] show ?thesis by blast
qed

text \<open>
  Against claim C9 as stated: two saves within the same millisecond store two
  prompts with the same identifier.
\<close>

theorem same_millisecond_identifiers_collide:
  "\<not> distinct (map p_id (prompts_of (state_of (run_ops same_millisecond_saves empty_browser))))"
  by (simp add: same_millisecond_saves_def savePrompt_def getSavedPrompts_eq setItem_prompts_def
      empty_browser_def prompts_of_def Let_def)

subsection \<open>The two storage keys\<close>

text \<open>
  Claim C10. \<^verbatim>\<open>getHistory\<close>, \<^verbatim>\<open>addToHistory\<close>, \<^verbatim>\<open>deleteHistoryItem\<close> and
  \<^verbatim>\<open>clearAllHistory\<close> leave the document under \<^verbatim>\<open>lumina_saved_prompts_v1\<close>
  as it was, for every browser state and every argument, and what \<^verbatim>\<open>getHistory\<close>
  returns does not depend on that document; \<^verbatim>\<open>getSavedPrompts\<close>,
  \<^verbatim>\<open>savePrompt\<close> and \<^verbatim>\<open>deleteSavedPrompt\<close> leave the document under
  \<^verbatim>\<open>lumina_history_v1\<close> as it was, and what \<^verbatim>\<open>getSavedPrompts\<close> returns does
  not depend on it.
\<close>

theorem history_and_prompts_are_framed:
  "lumina_saved_prompts_v1 (storage (state_of (getHistory b))) = lumina_saved_prompts_v1 (storage b) \<and>
   lumina_saved_prompts_v1 (storage (state_of (addToHistory now ty base64 prompt metadata b))) =
     lumina_saved_prompts_v1 (storage b) \<and>
   lumina_saved_prompts_v1 (storage (state_of (deleteHistoryItem ident b))) =
     lumina_saved_prompts_v1 (storage b) \<and>
   lumina_saved_prompts_v1 (storage (state_of (clearAllHistory b))) = lumina_saved_prompts_v1 (storage b) \<and>
   getHistory (b\<lparr>storage := (storage b)\<lparr>lumina_saved_prompts_v1 := c\<rparr>\<rparr>) =
     (case getHistory b of Normal v b1 \<Rightarrow> Normal v (b1\<lparr>storage := (storage b1)\<lparr>lumina_saved_prompts_v1 := c\<rparr>\<rparr>)
      | Throw e b1 \<Rightarrow> Throw e (b1\<lparr>storage := (storage b1)\<lparr>lumina_saved_prompts_v1 := c\<rparr>\<rparr>)) \<and>
   lumina_history_v1 (storage (state_of (getSavedPrompts b))) = lumina_history_v1 (storage b) \<and>
   lumina_history_v1 (storage (state_of (savePrompt now str b))) = lumina_history_v1 (storage b) \<and>
   lumina_history_v1 (storage (state_of (deleteSavedPrompt ident b))) = lumina_history_v1 (storage b) \<and>
   getSavedPrompts (b\<lparr>storage := (storage b)\<lparr>lumina_history_v1 := d\<rparr>\<rparr>) =
     (case getSavedPrompts b of Normal v b1 \<Rightarrow> Normal v (b1\<lparr>storage := (storage b1)\<lparr>lumina_history_v1 := d\<rparr>\<rparr>)
      | Throw e b1 \<Rightarrow> Throw e (b1\<lparr>storage := (storage b1)\<lparr>lumina_history_v1 := d\<rparr>\<rparr>))"
proof (intro conjI)
  show "lumina_saved_prompts_v1 (storage (state_of (addToHistory now ty base64 prompt metadata b))) =
     lumina_saved_prompts_v1 (storage b)"
    using history_after_add [of now ty base64 prompt metadata b] by auto
qed (auto simp: getHistory_eq getSavedPrompts_eq deleteHistoryItem_def clearAllHistory_def
      removeItem_history_def savePrompt_def deleteSavedPrompt_def setItem_history_def
      setItem_prompts_def Let_def history_of_def prompts_of_def console_error_def)

section \<open>Aspect ratios\<close>

lemma floor_rat_numeral_div [simp]:
  "\<lfloor>numeral a / numeral b :: rat\<rfloor> = numeral a div numeral b"
  using floor_divide_of_int_eq [of "numeral a" "numeral b", where ?'a = rat] by simp

lemma bitlen_numeral [simp]:
  "bitlen 0 = 0"
  "bitlen 1 = 1"
  "bitlen (Suc 0) = 1"
  "bitlen (numeral Num.One) = 1"
  "bitlen (numeral (Num.Bit0 n)) = Suc (bitlen (numeral n))"
  "bitlen (numeral (Num.Bit1 n)) = Suc (bitlen (numeral n))"
proof -
  show "bitlen 0 = 0" "bitlen 1 = 1" "bitlen (Suc 0) = 1" "bitlen (numeral Num.One) = 1"
    by (simp_all add: bitlen.simps)
  have "numeral (Num.Bit0 n) div (2::nat) = numeral n" by simp
  then show "bitlen (numeral (Num.Bit0 n)) = Suc (bitlen (numeral n))"
    by (subst bitlen.simps) simp
  have "numeral (Num.Bit1 n) div (2::nat) = numeral n" by simp
  then show "bitlen (numeral (Num.Bit1 n)) = Suc (bitlen (numeral n))"
    by (subst bitlen.simps) simp
qed

lemmas number_eval = fl_def round_at_def pack_def round_half_even_def nearest_even_def
  floor_log2_def neg_log2_def pow2_def

lemma num_less_key: "a \<noteq> NaN \<Longrightarrow> b \<noteq> NaN \<Longrightarrow> num_less a b \<longleftrightarrow> key a < key b"
  by (cases a; cases b) simp_all

lemma key_inj: "key a = key b \<Longrightarrow> a = b"
  by (cases a; cases b) simp_all

lemma fl_not_NaN [simp]: "fl x \<noteq> NaN"
  by (simp add: fl_def round_at_def pack_def)

lemma num_div_pos_not_NaN: "0 < w \<Longrightarrow> 0 < h \<Longrightarrow> num_div (Num w) (Num h) \<noteq> NaN"
  by simp

lemma defining_ratio_values:
  "defining_ratio a = Num (case a of SQUARE \<Rightarrow> 1 | PORTRAIT_3_4 \<Rightarrow> 3 / 4
     | LANDSCAPE_4_3 \<Rightarrow> 6004799503160661 / 4503599627370496 | PORTRAIT_9_16 \<Rightarrow> 9 / 16
     | LANDSCAPE_16_9 \<Rightarrow> 2001599834386887 / 1125899906842624)"
  by (cases a) (simp_all add: number_eval)

lemma distance_not_NaN:
  assumes "0 < w" "0 < h"
  shows "distance a (Num w) (Num h) \<noteq> NaN"
proof -
  obtain c where c: "defining_ratio a = Num c"
    using defining_ratio_values by blast
  have "num_div (Num w) (Num h) = fl (w / h)" using assms by simp
  moreover have "Math_abs (num_sub (Num c) y) \<noteq> NaN" if "y \<noteq> NaN" for y
    using that by (cases y; cases "fl (c - (case y of Num q \<Rightarrow> q))") auto
  ultimately show ?thesis by (simp add: distance_def c)
qed

lemma getClosestAspectRatio_eq:
  "getClosestAspectRatio w h =
     (let pick = (\<lambda>p c. if num_less (distance c w h) (distance p w h) then c else p)
      in pick (pick (pick (pick SQUARE PORTRAIT_3_4) LANDSCAPE_4_3) PORTRAIT_9_16) LANDSCAPE_16_9)"
  by (simp add: getClosestAspectRatio_def distance_def Let_def)

lemma first_closest:
  assumes "0 < w" "0 < h" "a \<noteq> getClosestAspectRatio (Num w) (Num h)"
  shows "num_less (distance (getClosestAspectRatio (Num w) (Num h)) (Num w) (Num h)) (distance a (Num w) (Num h)) \<or>
         (distance a (Num w) (Num h) = distance (getClosestAspectRatio (Num w) (Num h)) (Num w) (Num h) \<and>
          declaration_index (getClosestAspectRatio (Num w) (Num h)) < declaration_index a)"
proof -
  define k where "k = (\<lambda>a. key (distance a (Num w) (Num h)))"
  have less: "num_less (distance x (Num w) (Num h)) (distance y (Num w) (Num h)) \<longleftrightarrow> k x < k y" for x y
    unfolding k_def using distance_not_NaN [OF assms(1,2)] by (simp add: num_less_key)
  have eq: "distance x (Num w) (Num h) = distance y (Num w) (Num h) \<longleftrightarrow> k x = k y" for x y
    unfolding k_def using key_inj by auto
  show ?thesis
    using assms(3) unfolding getClosestAspectRatio_eq Let_def less eq
    by (cases a) (auto simp: not_less split: if_splits)
qed

lemma closest_1024_1024: "getClosestAspectRatio (Num 1024) (Num 1024) = SQUARE"
  unfolding getClosestAspectRatio_def Let_def by (simp add: number_eval)

lemma closest_1920_1080: "getClosestAspectRatio (Num 1920) (Num 1080) = LANDSCAPE_16_9"
  unfolding getClosestAspectRatio_def Let_def by (simp add: number_eval)

lemma closest_768_1024: "getClosestAspectRatio (Num 768) (Num 1024) = PORTRAIT_3_4"
  unfolding getClosestAspectRatio_def Let_def by (simp add: number_eval)

lemma closest_700_600: "getClosestAspectRatio (Num 700) (Num 600) = LANDSCAPE_4_3"
  unfolding getClosestAspectRatio_def Let_def by (simp add: number_eval)

lemma distances_700_600:
  "num_div (Num 700) (Num 600) = Num (5254199565265579 / 4503599627370496)"
  "distance SQUARE (Num 700) (Num 600) = Num (750599937895083 / 4503599627370496)"
  "distance LANDSCAPE_4_3 (Num 700) (Num 600) = Num (750599937895082 / 4503599627370496)"
  by (simp_all add: distance_def number_eval)

text \<open>
  Claim C1, as the code has it. For positive \<open>w\<close> and \<open>h\<close> every member of the
  enumeration other than the result is farther from \<open>w / h\<close> than the result, or
  as far and declared later, where the quotient, the defining ratios \<open>4 / 3\<close> and
  \<open>16 / 9\<close> and the differences are the doubles the code computes. So the
  result is the only member of least computed distance that is declared first
  among those. 1024 by 1024 gives 1:1, 1920 by 1080 gives 16:9 and 768 by 1024
  gives 3:4.
\<close>

theorem closest_ratio_least_computed_distance:
  "(0 < w \<and> 0 < h \<and> a \<noteq> getClosestAspectRatio (Num w) (Num h) \<longrightarrow>
      num_less (distance (getClosestAspectRatio (Num w) (Num h)) (Num w) (Num h))
               (distance a (Num w) (Num h)) \<or>
      (distance a (Num w) (Num h) =
         distance (getClosestAspectRatio (Num w) (Num h)) (Num w) (Num h) \<and>
       declaration_index (getClosestAspectRatio (Num w) (Num h)) < declaration_index a)) \<and>
   getClosestAspectRatio (Num 1024) (Num 1024) = SQUARE \<and>
   getClosestAspectRatio (Num 1920) (Num 1080) = LANDSCAPE_16_9 \<and>
   getClosestAspectRatio (Num 768) (Num 1024) = PORTRAIT_3_4"
  using first_closest [of w h a] closest_1024_1024 closest_1920_1080 closest_768_1024
  by blast

text \<open>
  At 700 by 600 the result is 4:3, and 1:1 is farther by one unit in the last
  place.
\<close>

theorem closest_ratio_least_computed_distance_witness:
  "(0::rat) < 700 \<and> (0::rat) < 600 \<and> SQUARE \<noteq> getClosestAspectRatio (Num 700) (Num 600) \<and>
   num_less (distance (getClosestAspectRatio (Num 700) (Num 600)) (Num 700) (Num 600))
            (distance SQUARE (Num 700) (Num 600))"
  using closest_ratio_least_computed_distance [of 700 600 SQUARE]
  by (simp add: closest_700_600 distances_700_600)

text \<open>
  Against claim C1 as stated: the exact quotient \<open>700 / 600\<close> is as far from 1
  as from \<open>4 / 3\<close>, and 1:1 is declared first, yet the result is 4:3: the doubles
  for \<open>7 / 6\<close> and \<open>4 / 3\<close> are rounded, and the computed distance to 4:3 is
  the smaller one.
\<close>

theorem closest_ratio_exact_tie_not_first_declared:
  "\<bar>1 - 700 / 600\<bar> = \<bar>4 / 3 - 700 / (600::rat)\<bar> \<and>
   declaration_index SQUARE < declaration_index LANDSCAPE_4_3 \<and>
   getClosestAspectRatio (Num 700) (Num 600) = LANDSCAPE_4_3 \<and>
   num_div (Num 700) (Num 600) = Num (5254199565265579 / 4503599627370496) \<and>
   defining_ratio LANDSCAPE_4_3 = Num (6004799503160661 / 4503599627370496) \<and>
   distance SQUARE (Num 700) (Num 600) = Num (750599937895083 / 4503599627370496) \<and>
   distance LANDSCAPE_4_3 (Num 700) (Num 600) = Num (750599937895082 / 4503599627370496)"
  by (simp add: closest_700_600 distance_def defining_ratio_values number_eval)

section \<open>Dimensions in the prompt and the size tier\<close>

lemmas regex_eval = js_def is_digit_def is_white_space_def canonicalize_def lits_def lit_def opt_def
  any_char_def exec_def trim_def element_def split_regex_def split_loop.simps replace_first_def
  parseInt_def parse_digits_def in_radix_def digit_of_def digits_value_def

lemma dimensions_1920x1080:
  "extractDimensionsFromPrompt (js ''Cyberpunk city 1920x1080'') =
     Some \<lparr>width = Num 1920, height = Num 1080\<rparr>"
  by (simp add: extractDimensionsFromPrompt_def dims_regex_def regex_eval number_eval)

lemma dimensions_sunset: "extractDimensionsFromPrompt (js ''a nice sunset'') = None"
  by (simp add: extractDimensionsFromPrompt_def dims_regex_def regex_eval)

lemma dimensions_4x4: "extractDimensionsFromPrompt (js ''a 4x4 grid'') = None"
  by (simp add: extractDimensionsFromPrompt_def dims_regex_def regex_eval)

lemma dimensions_1000_by_1000:
  "extractDimensionsFromPrompt (js ''1000 by 1000 pixels wide'') =
     Some \<lparr>width = Num 1000, height = Num 1000\<rparr>"
  by (simp add: extractDimensionsFromPrompt_def dims_regex_def regex_eval number_eval)

lemma dimensions_512x512:
  "extractDimensionsFromPrompt (js ''icon 512x512'') = Some \<lparr>width = Num 512, height = Num 512\<rparr>"
  by (simp add: extractDimensionsFromPrompt_def dims_regex_def regex_eval number_eval)

text \<open>
  Claim C8, as the code has it. The pattern asks for three to five digits on
  both sides, so \<open>a 4x4 grid\<close> gives no match; \<open>1000 by 1000 pixels wide\<close>
  gives width 1000 and height 1000.
\<close>

theorem small_numbers_are_no_dimensions:
  "extractDimensionsFromPrompt (js ''a 4x4 grid'') = None \<and>
   extractDimensionsFromPrompt (js ''1000 by 1000 pixels wide'') =
     Some \<lparr>width = Num 1000, height = Num 1000\<rparr>"
  using dimensions_4x4 dimensions_1000_by_1000 by simp

text \<open>
  Against claim C8 as stated: \<open>a 4x4 grid\<close> is not matched as 4 by 4.
\<close>

theorem grid_4x4_is_not_matched:
  "extractDimensionsFromPrompt (js ''a 4x4 grid'') \<noteq> Some \<lparr>width = Num 4, height = Num 4\<rparr>"
  by (simp add: dimensions_4x4)

text \<open>
  The size tier of \<^verbatim>\<open>handleGenerate\<close>: with custom dimensions it follows the
  larger dimension alone; with dimensions found in the prompt the tier the user
  selected stays when the larger dimension is at most 1024.
\<close>

lemma custom_size_tier:
  "snd (handleGenerate_sizing True (Num w) (Num h) prompt aspectRatio selected) =
     (if 2048 < max w h then K4 else if 1024 < max w h then K2 else K1)"
  by (simp add: handleGenerate_sizing_def max_def)

lemma extracted_size_tier:
  "extractDimensionsFromPrompt prompt = Some \<lparr>width = Num w, height = Num h\<rparr> \<Longrightarrow>
   snd (handleGenerate_sizing False cw ch prompt aspectRatio selected) =
     (if 2048 < max w h then K4 else if 1024 < max w h then K2 else selected)"
  by (simp add: handleGenerate_sizing_def max_def)

text \<open>
  Claim C2 at the input where the code leaves it: custom dimensions off, the 4K
  tier selected and \<open>icon 512x512\<close> as the prompt. The larger dimension is 512
  and the tier stays 4K, where the custom branch gives 1K for 512 by 512.
\<close>

theorem extracted_small_dimensions_keep_selected_tier:
  "handleGenerate_sizing False cw ch (js ''icon 512x512'') aspectRatio K4 = (SQUARE, K4) \<and>
   handleGenerate_sizing True (Num 512) (Num 512) prompt aspectRatio K4 = (SQUARE, K1)"
proof -
  have "getClosestAspectRatio (Num 512) (Num 512) = SQUARE"
    unfolding getClosestAspectRatio_def Let_def by (simp add: number_eval)
  then show ?thesis
    by (simp add: handleGenerate_sizing_def dimensions_512x512)
qed

section \<open>The matcher and the matches of a pattern\<close>

lemma rep_sound:
  assumes "rep ic g mn mx a (i, s, c) k = Some res" "\<forall>m. mx = Some m \<longrightarrow> mn \<le> m"
  shows "\<exists>w t. s = w @ t \<and> mn \<le> length w \<and> (\<forall>m. mx = Some m \<longrightarrow> length w \<le> m) \<and>
           list_all (atom_matches ic a) w \<and> k (i + length w, t, c) = Some res"
  using assms
proof (induction s arbitrary: i mn mx)
  case Nil
  then show ?case by (auto split: if_splits)
next
  case (Cons x s)
  have "(k (i, x # s, c) = Some res \<and> mn = 0) \<or>
        (atom_matches ic a x \<and> mx \<noteq> Some 0 \<and>
         rep ic g (mn - 1) (map_option (\<lambda>n. n - 1) mx) a (Suc i, s, c) k = Some res)"
  proof (cases "mx = Some 0")
    case True
    with Cons.prems show ?thesis by simp
  next
    case False
    show ?thesis
    proof (cases "mn = 0")
      case True
      with False Cons.prems show ?thesis
        by (cases g; cases "atom_matches ic a x"; cases "k (i, x # s, c)";
            cases "rep ic g 0 (map_option (\<lambda>n. n - 1) mx) a (Suc i, s, c) k") simp_all
    next
      case mn: False
      with False Cons.prems show ?thesis
        by (cases "atom_matches ic a x") simp_all
    qed
  qed
  then show ?case
  proof (elim disjE conjE)
    assume "k (i, x # s, c) = Some res" "mn = 0"
    then show ?thesis by (intro exI [of _ "[]"] exI [of _ "x # s"]) simp
  next
    assume step: "atom_matches ic a x" "mx \<noteq> Some 0"
      "rep ic g (mn - 1) (map_option (\<lambda>n. n - 1) mx) a (Suc i, s, c) k = Some res"
    have "\<forall>m. map_option (\<lambda>n. n - 1) mx = Some m \<longrightarrow> mn - 1 \<le> m"
      using Cons.prems(2) by auto
    from Cons.IH [OF step(3) this] obtain w t where w: "s = w @ t" "mn - 1 \<le> length w"
      "\<forall>m. map_option (\<lambda>n. n - 1) mx = Some m \<longrightarrow> length w \<le> m"
      "list_all (atom_matches ic a) w" "k (Suc i + length w, t, c) = Some res"
      by blast
    have "\<forall>m. mx = Some m \<longrightarrow> length (x # w) \<le> m"
      using w(3) step(2) by (cases mx) auto
    with w step(1) show ?thesis
      by (intro exI [of _ "x # w"] exI [of _ t]) auto
  qed
qed

lemma rep_complete:
  assumes "s = w @ t" "mn \<le> length w" "\<forall>m. mx = Some m \<longrightarrow> length w \<le> m"
    "list_all (atom_matches ic a) w" "k (i + length w, t, c) \<noteq> None"
  shows "rep ic g mn mx a (i, s, c) k \<noteq> None"
  using assms
proof (induction w arbitrary: i s mn mx)
  case Nil
  then show ?case by (cases s) (auto split: option.splits)
next
  case (Cons x w)
  have ih: "rep ic g (mn - 1) (map_option (\<lambda>n. n - 1) mx) a (Suc i, w @ t, c) k \<noteq> None"
    using Cons.prems by (intro Cons.IH) auto
  show ?case
  proof (cases "mn = 0")
    case True
    with ih Cons.prems show ?thesis by (auto split: option.splits)
  next
    case False
    with ih Cons.prems show ?thesis by (auto split: option.splits)
  qed
qed

lemma rep_blind:
  assumes "blind k"
  shows "(rep ic g mn mx a (i, s, c) k = None) = (rep ic g mn mx a (i, s, c') k = None)"
proof (induction s arbitrary: i mn mx)
  case Nil
  then show ?case using assms by (auto simp: blind_def)
next
  case (Cons x s)
  have k: "(k (i, x # s, c) = None) = (k (i, x # s, c') = None)"
    using assms by (auto simp: blind_def)
  have ih: "(rep ic g n m a (Suc i, s, c) k = None) = (rep ic g n m a (Suc i, s, c') k = None)" for n m
    by (rule Cons.IH)
  show ?case
  proof (cases "mx = Some 0")
    case True
    with k show ?thesis by simp
  next
    case False
    show ?thesis
    proof (cases "atom_matches ic a x")
      case True
      show ?thesis
      proof (cases "mn = 0")
        case mn: True
        from ih [of 0 "map_option (\<lambda>n. n - 1) mx"] k False True mn show ?thesis
          by (cases g; cases "k (i, x # s, c)"; cases "k (i, x # s, c')";
              cases "rep ic g 0 (map_option (\<lambda>n. n - 1) mx) a (Suc i, s, c) k";
              cases "rep ic g 0 (map_option (\<lambda>n. n - 1) mx) a (Suc i, s, c') k") simp_all
      next
        case mn: False
        from ih [of "mn - 1" "map_option (\<lambda>n. n - 1) mx"] False True mn show ?thesis by simp
      qed
    next
      case no: False
      with k False show ?thesis
        by (cases g; cases "k (i, x # s, c)"; cases "k (i, x # s, c')") simp_all
    qed
  qed
qed

lemma matcher_blind:
  "blind k \<Longrightarrow> (matcher r ic (i, s, c) k = None) = (matcher r ic (i, s, c') k = None)"
proof (induction r arbitrary: i s c c' k)
  case (Atom a)
  then show ?case by (auto simp: blind_def split: list.splits)
next
  case (Seq r1 r2)
  have "blind (\<lambda>y. matcher r2 ic y k)"
    unfolding blind_def using Seq.IH(2) [OF Seq.prems] by blast
  from Seq.IH(1) [OF this] show ?case by simp
next
  case (Alt r1 r2)
  from Alt.IH(1) [OF Alt.prems, of i s c c'] Alt.IH(2) [OF Alt.prems, of i s c c']
  show ?case by (auto split: option.splits)
next
  case (Repeat g mn mx a)
  then show ?case using rep_blind by simp
next
  case (Group n r)
  have "blind (\<lambda>(j, t, caps'). k (j, t, caps'(n \<mapsto> take (j - i) s)))"
    using Group.prems by (auto simp: blind_def)
  from Group.IH [OF this] show ?case by simp
next
  case (LookAhead r)
  have b: "blind Some" by (simp add: blind_def)
  from LookAhead.IH [OF b, of i s c c'] LookAhead.prems show ?case
    by (auto simp: blind_def split: option.splits)
next
  case Bos
  then show ?case by (auto simp: blind_def)
next
  case Eos
  then show ?case by (auto simp: blind_def)
next
  case Empty
  then show ?case by (auto simp: blind_def)
qed

lemma matcher_sound:
  "well_bounded r \<Longrightarrow> matcher r ic x k = Some res \<Longrightarrow> \<exists>y \<in> lang r ic x. k y = Some res"
proof (induction r arbitrary: x k res)
  case (Atom a)
  obtain i s c where x: "x = (i, s, c)" by (cases x)
  from Atom.prems(2) x obtain ch t where "s = ch # t" "atom_matches ic a ch" "k (Suc i, t, c) = Some res"
    by (cases s) (auto split: if_splits)
  with x show ?case by auto
next
  case (Seq r1 r2)
  from Seq.prems(1) have wb: "well_bounded r1" "well_bounded r2" by simp_all
  from Seq.prems(2) have "matcher r1 ic x (\<lambda>y. matcher r2 ic y k) = Some res" by simp
  from Seq.IH(1) [OF wb(1) this] obtain y where
    y: "y \<in> lang r1 ic x" "matcher r2 ic y k = Some res" by blast
  from Seq.IH(2) [OF wb(2) y(2)] obtain z where z: "z \<in> lang r2 ic y" "k z = Some res" by blast
  from y(1) z(1) have "z \<in> lang (Seq r1 r2) ic x" by auto
  with z(2) show ?case by blast
next
  case (Alt r1 r2)
  from Alt.prems(1) have wb: "well_bounded r1" "well_bounded r2" by simp_all
  from Alt.prems(2) have "matcher r1 ic x k = Some res \<or> matcher r2 ic x k = Some res"
    by (cases "matcher r1 ic x k") simp_all
  then show ?case
  proof
    assume "matcher r1 ic x k = Some res"
    from Alt.IH(1) [OF wb(1) this] show ?thesis by auto
  next
    assume "matcher r2 ic x k = Some res"
    from Alt.IH(2) [OF wb(2) this] show ?thesis by auto
  qed
next
  case (Repeat g mn mx a)
  obtain i s c where x: "x = (i, s, c)" by (cases x)
  from Repeat.prems(1) have b: "\<forall>m. mx = Some m \<longrightarrow> mn \<le> m" by auto
  from Repeat.prems(2) x have "rep ic g mn mx a (i, s, c) k = Some res" by simp
  from rep_sound [OF this b] obtain w t where w: "s = w @ t" "mn \<le> length w"
    "\<forall>m. mx = Some m \<longrightarrow> length w \<le> m" "list_all (atom_matches ic a) w"
    "k (i + length w, t, c) = Some res" by blast
  then have "(i + length w, t, c) \<in> lang (Repeat g mn mx a) ic (i, s, c)" by auto
  with w(5) x show ?case by blast
next
  case (Group n r)
  obtain i s c where x: "x = (i, s, c)" by (cases x)
  from Group.prems(1) have wb: "well_bounded r" by simp
  from Group.prems(2) x
  have "matcher r ic x (\<lambda>(j, t, caps'). k (j, t, caps'(n \<mapsto> take (j - i) s))) = Some res"
    by simp
  from Group.IH [OF wb this] obtain j t c' where
    y: "(j, t, c') \<in> lang r ic x" "k (j, t, c'(n \<mapsto> take (j - i) s)) = Some res" by auto
  from y(1) x have "(j, t, c'(n \<mapsto> take (j - i) s)) \<in> lang (Group n r) ic x" by force
  with y(2) show ?case by blast
next
  case (LookAhead r)
  obtain i s c where x: "x = (i, s, c)" by (cases x)
  from LookAhead.prems(1) have wb: "well_bounded r" by simp
  from LookAhead.prems(2) x obtain j t c' where
    m: "matcher r ic x Some = Some (j, t, c')" "k (i, s, c') = Some res"
    by (auto split: option.splits)
  from LookAhead.IH [OF wb m(1)] have "(j, t, c') \<in> lang r ic x" by auto
  with x have "(i, s, c') \<in> lang (LookAhead r) ic x" by auto
  with m(2) show ?case by blast
next
  case Bos
  then show ?case by (cases x) (auto split: if_splits)
next
  case Eos
  then show ?case by (cases x) (auto split: if_splits)
next
  case Empty
  then show ?case by auto
qed

lemma matcher_complete:
  "y \<in> lang r ic x \<Longrightarrow> k y \<noteq> None \<Longrightarrow> blind k \<Longrightarrow> matcher r ic x k \<noteq> None"
proof (induction r arbitrary: x y k)
  case (Atom a)
  then show ?case by (cases x) auto
next
  case (Seq r1 r2)
  from Seq.prems(1) obtain z where z: "z \<in> lang r1 ic x" "y \<in> lang r2 ic z" by auto
  have b: "blind (\<lambda>y. matcher r2 ic y k)"
    unfolding blind_def using matcher_blind [OF Seq.prems(3)] by blast
  from Seq.IH(2) [OF z(2) Seq.prems(2,3)] have "matcher r2 ic z k \<noteq> None" .
  from Seq.IH(1) [OF z(1) this b] show ?case by simp
next
  case (Alt r1 r2)
  from Alt.prems(1) have "y \<in> lang r1 ic x \<or> y \<in> lang r2 ic x" by simp
  then show ?case
  proof
    assume "y \<in> lang r1 ic x"
    from Alt.IH(1) [OF this Alt.prems(2,3)] show ?thesis by (auto split: option.splits)
  next
    assume "y \<in> lang r2 ic x"
    from Alt.IH(2) [OF this Alt.prems(2,3)] show ?thesis by (auto split: option.splits)
  qed
next
  case (Repeat g mn mx a)
  obtain i s c where x: "x = (i, s, c)" by (cases x)
  from Repeat.prems(1) x obtain w t where w: "y = (i + length w, t, c)" "s = w @ t" "mn \<le> length w"
    "\<forall>m. mx = Some m \<longrightarrow> length w \<le> m" "list_all (atom_matches ic a) w" by auto
  from rep_complete [OF w(2,3,4,5)] Repeat.prems(2) w(1) x show ?case by simp
next
  case (Group n r)
  obtain i s c where x: "x = (i, s, c)" by (cases x)
  from Group.prems(1) x obtain j t c' where
    z: "(j, t, c') \<in> lang r ic x" "y = (j, t, c'(n \<mapsto> take (j - i) s))" by auto
  have b: "blind (\<lambda>(j, t, caps'). k (j, t, caps'(n \<mapsto> take (j - i) s)))"
    using Group.prems(3) by (auto simp: blind_def)
  from Group.IH [OF z(1) _ b] Group.prems(2) z(2) x show ?case by simp
next
  case (LookAhead r)
  obtain i s c where x: "x = (i, s, c)" by (cases x)
  from LookAhead.prems(1) x obtain j t c' where
    z: "(j, t, c') \<in> lang r ic x" "y = (i, s, c')" by auto
  have "blind Some" by (simp add: blind_def)
  from LookAhead.IH [OF z(1) _ this] obtain j' t' c'' where "matcher r ic x Some = Some (j', t', c'')"
    by auto
  moreover have "(k (i, s, c') = None) = (k (i, s, c'') = None)"
    using LookAhead.prems(3) unfolding blind_def by blast
  then have "k (i, s, c'') \<noteq> None"
    using LookAhead.prems(2) z(2) by simp
  ultimately show ?case using x by auto
next
  case Bos
  then show ?case by (cases x) (auto split: if_splits)
next
  case Eos
  then show ?case by (cases x) (auto split: if_splits)
next
  case Empty
  then show ?case by auto
qed

lemma matcher_Some_iff:
  assumes "well_bounded r"
  shows "matcher r ic x Some = None \<longleftrightarrow> lang r ic x = {}"
proof
  assume "matcher r ic x Some = None"
  then show "lang r ic x = {}"
    using matcher_complete [of _ r ic x Some] by (auto simp: blind_def)
next
  assume "lang r ic x = {}"
  then show "matcher r ic x Some = None"
    using matcher_sound [OF assms, of ic x Some] by (cases "matcher r ic x Some") auto
qed

lemma exec_from_None:
  assumes "well_bounded r"
  shows "exec_from r ic i s = None \<longleftrightarrow> (\<forall>n \<le> length s. lang r ic (i + n, drop n s, Map.empty) = {})"
proof (induction s arbitrary: i)
  case Nil
  then show ?case using matcher_Some_iff [OF assms] by simp
next
  case (Cons x s)
  have "(\<forall>n \<le> length (x # s). lang r ic (i + n, drop n (x # s), Map.empty) = {}) \<longleftrightarrow>
        lang r ic (i, x # s, Map.empty) = {} \<and> (\<forall>n \<le> length s. lang r ic (Suc i + n, drop n s, Map.empty) = {})"
    (is "?L \<longleftrightarrow> ?R")
  proof
    assume l: ?L
    then have "lang r ic (i + 0, drop 0 (x # s), Map.empty) = {}" by blast
    moreover have "lang r ic (Suc i + n, drop n s, Map.empty) = {}" if "n \<le> length s" for n
      using l that by (auto dest: spec [of _ "Suc n"])
    ultimately show ?R by simp
  next
    assume r: ?R
    show ?L
    proof (intro allI impI)
      fix n assume "n \<le> length (x # s)"
      then show "lang r ic (i + n, drop n (x # s), Map.empty) = {}"
        using r by (cases n) auto
    qed
  qed
  then show ?case
    using Cons.IH [of "Suc i"] matcher_Some_iff [OF assms, of ic "(i, x # s, Map.empty)"]
    by (auto split: option.splits)
qed

lemma exec_from_Some:
  assumes "well_bounded r" "exec_from r ic i s = Some (p, y)"
  shows "\<exists>n \<le> length s. p = i + n \<and> y \<in> lang r ic (p, drop n s, Map.empty) \<and>
           (\<forall>m < n. lang r ic (i + m, drop m s, Map.empty) = {}) \<and>
           matcher r ic (p, drop n s, Map.empty) Some = Some y"
  using assms(2)
proof (induction s arbitrary: i)
  case Nil
  then have "matcher r ic (i, [], Map.empty) Some = Some y" "p = i" by auto
  with matcher_sound [OF assms(1), of ic "(i, [], Map.empty)" Some y] show ?case by auto
next
  case (Cons x s)
  show ?case
  proof (cases "matcher r ic (i, x # s, Map.empty) Some")
    case None
    with Cons.prems have "exec_from r ic (Suc i) s = Some (p, y)" by simp
    from Cons.IH [OF this] obtain n where n: "n \<le> length s" "p = Suc i + n"
      "y \<in> lang r ic (p, drop n s, Map.empty)" "\<forall>m < n. lang r ic (Suc i + m, drop m s, Map.empty) = {}"
      "matcher r ic (p, drop n s, Map.empty) Some = Some y"
      by blast
    have e: "lang r ic (i, x # s, Map.empty) = {}"
      using None matcher_Some_iff [OF assms(1)] by simp
    have "lang r ic (i + m, drop m (x # s), Map.empty) = {}" if "m < Suc n" for m
      using that e n(4) by (cases m) auto
    with n show ?thesis by (intro exI [of _ "Suc n"]) auto
  next
    case (Some z)
    with Cons.prems have "p = i" "z = y" by auto
    with Some matcher_sound [OF assms(1), of ic "(i, x # s, Map.empty)" Some y] show ?thesis
      by (intro exI [of _ 0]) auto
  qed
qed

lemma rep_priority:
  assumes "rep ic g mn mx a (i, s, c) k = Some res" "\<forall>m. mx = Some m \<longrightarrow> mn \<le> m"
  shows "\<exists>w t. s = w @ t \<and> mn \<le> length w \<and> (\<forall>m. mx = Some m \<longrightarrow> length w \<le> m) \<and>
           list_all (atom_matches ic a) w \<and> k (i + length w, t, c) = Some res \<and>
           (\<forall>w' t'. s = w' @ t' \<and> (if g then length w < length w' else length w' < length w) \<and>
              mn \<le> length w' \<and> (\<forall>m. mx = Some m \<longrightarrow> length w' \<le> m) \<and>
              list_all (atom_matches ic a) w' \<longrightarrow> k (i + length w', t', c) = None)"
  using assms
proof (induction s arbitrary: i mn mx)
  case Nil
  then show ?case by (auto split: if_splits)
next
  case (Cons x s)
  let ?mx = "map_option (\<lambda>n. n - 1) mx"
  let ?step = "rep ic g (mn - 1) ?mx a (Suc i, s, c) k"
  have bnd: "\<forall>m. ?mx = Some m \<longrightarrow> mn - 1 \<le> m"
    using Cons.prems(2) by auto
  have stop_ok: ?case if k: "k (i, x # s, c) = Some res" and mn: "mn = 0"
    and none: "g \<Longrightarrow> mx \<noteq> Some 0 \<Longrightarrow> atom_matches ic a x \<Longrightarrow> ?step = None"
  proof (rule exI [of _ "[]"], rule exI [of _ "x # s"], intro conjI allI impI)
    fix w' t'
    assume a: "x # s = w' @ t' \<and> (if g then length [] < length w' else length w' < length []) \<and>
      mn \<le> length w' \<and> (\<forall>m. mx = Some m \<longrightarrow> length w' \<le> m) \<and> list_all (atom_matches ic a) w'"
    then have g: g and w': "w' \<noteq> []" by (auto split: if_splits)
    then obtain w'' where w'': "w' = x # w''" "s = w'' @ t'" using a by (cases w') auto
    have m0: "mx \<noteq> Some 0" using a w''(1) by auto
    have am: "atom_matches ic a x" using a w''(1) by simp
    have sn: "?step = None" using none [OF g m0 am] .
    have rc: "rep ic g (mn - 1) ?mx a (Suc i, s, c) k \<noteq> None" if "k (Suc i + length w'', t', c) \<noteq> None"
      using that a w'' by (intro rep_complete [of s w'' t']) (auto simp: mn)
    show "k (i + length w', t', c) = None"
    proof (rule ccontr)
      assume "k (i + length w', t', c) \<noteq> None"
      then have "k (Suc i + length w'', t', c) \<noteq> None" using w''(1) by simp
      from rc [OF this] sn show False by simp
    qed
  qed (use k mn in simp_all)
  have step_ok: ?case if st: "?step = Some res" and am: "atom_matches ic a x" and m0: "mx \<noteq> Some 0"
    and none: "\<not> g \<Longrightarrow> mn = 0 \<Longrightarrow> k (i, x # s, c) = None"
  proof -
    from Cons.IH [OF st bnd] obtain w t where w: "s = w @ t" "mn - 1 \<le> length w"
      "\<forall>m. ?mx = Some m \<longrightarrow> length w \<le> m" "list_all (atom_matches ic a) w"
      "k (Suc i + length w, t, c) = Some res"
      and pr: "\<forall>w' t'. s = w' @ t' \<and> (if g then length w < length w' else length w' < length w) \<and>
              mn - 1 \<le> length w' \<and> (\<forall>m. ?mx = Some m \<longrightarrow> length w' \<le> m) \<and>
              list_all (atom_matches ic a) w' \<longrightarrow> k (Suc i + length w', t', c) = None"
      by blast
    have b: "\<forall>m. mx = Some m \<longrightarrow> length (x # w) \<le> m"
      using w(3) m0 by (cases mx) auto
    show ?thesis
    proof (rule exI [of _ "x # w"], rule exI [of _ t], intro conjI allI impI)
      fix w' t'
      assume a: "x # s = w' @ t' \<and> (if g then length (x # w) < length w' else length w' < length (x # w)) \<and>
        mn \<le> length w' \<and> (\<forall>m. mx = Some m \<longrightarrow> length w' \<le> m) \<and> list_all (atom_matches ic a) w'"
      show "k (i + length w', t', c) = None"
      proof (cases w')
        case Nil
        with a have "\<not> g" "mn = 0" "t' = x # s" by (auto split: if_splits)
        with none Nil show ?thesis by simp
      next
        case (Cons x' w'')
        with a have w'': "s = w'' @ t'" "x' = x" by auto
        have "s = w'' @ t' \<and> (if g then length w < length w'' else length w'' < length w) \<and>
              mn - 1 \<le> length w'' \<and> (\<forall>m. ?mx = Some m \<longrightarrow> length w'' \<le> m) \<and>
              list_all (atom_matches ic a) w''"
          using a Cons w'' by (auto split: if_splits)
        with pr have "k (Suc i + length w'', t', c) = None" by blast
        with Cons show ?thesis by simp
      qed
    qed (use w am b in auto)
  qed
  have outcome:
    "(k (i, x # s, c) = Some res \<and> mn = 0 \<and>
        (g \<longrightarrow> mx \<noteq> Some 0 \<longrightarrow> atom_matches ic a x \<longrightarrow> ?step = None)) \<or>
     (?step = Some res \<and> atom_matches ic a x \<and> mx \<noteq> Some 0 \<and>
        (\<not> g \<longrightarrow> mn = 0 \<longrightarrow> k (i, x # s, c) = None))"
  proof (cases "mx = Some 0")
    case True
    with Cons.prems show ?thesis by simp
  next
    case False
    show ?thesis
    proof (cases "mn = 0")
      case True
      with False Cons.prems(1) show ?thesis
        by (cases g; cases "atom_matches ic a x"; cases "k (i, x # s, c)";
            cases "rep ic g 0 (map_option (\<lambda>n. n - 1) mx) a (Suc i, s, c) k") simp_all
    next
      case mn: False
      with False Cons.prems(1) show ?thesis
        by (cases "atom_matches ic a x") simp_all
    qed
  qed
  then show ?case
  proof (elim disjE conjE)
    assume "k (i, x # s, c) = Some res" "mn = 0"
      "g \<longrightarrow> mx \<noteq> Some 0 \<longrightarrow> atom_matches ic a x \<longrightarrow> ?step = None"
    then show ?thesis by (intro stop_ok) simp_all
  next
    assume "?step = Some res" "atom_matches ic a x" "mx \<noteq> Some 0"
      "\<not> g \<longrightarrow> mn = 0 \<longrightarrow> k (i, x # s, c) = None"
    then show ?thesis by (intro step_ok) simp_all
  qed
qed

section \<open>Integers read by parseInt\<close>

lemma bitlen_le: "n < 2 ^ k \<Longrightarrow> bitlen n \<le> k"
proof (induction k arbitrary: n)
  case 0
  then show ?case by (simp add: bitlen.simps)
next
  case (Suc k)
  then have "n div 2 < 2 ^ k" by simp
  from Suc.IH [OF this] show ?case by (subst bitlen.simps) simp
qed

lemma bitlen_pos: "0 < n \<Longrightarrow> 0 < bitlen n"
  by (subst bitlen.simps) simp

lemma round_half_even_of_int: "round_half_even (of_int z) = z"
  by (simp add: round_half_even_def nearest_even_def)

lemma fl_of_nat:
  assumes "n < 2 ^ 53"
  shows "fl (of_nat n) = Num (of_nat n)"
proof (cases "n = 0")
  case True
  then show ?thesis by (simp add: fl_def)
next
  case False
  define e where "e = int (bitlen n) - 1"
  have e: "0 \<le> e" "e \<le> 52"
    using bitlen_le [OF assms] bitlen_pos [of n] False by (simp_all add: e_def)
  have fle: "floor_log2 (of_nat n) = e"
    using False by (simp add: floor_log2_def e_def)
  define u where "u = pow2 (e - 52)"
  have u: "u = 1 / 2 ^ nat (52 - e)"
    using e by (auto simp: u_def pow2_def)
  have q: "of_nat n / u = of_int (int n * 2 ^ nat (52 - e))"
    by (simp add: u)
  have r: "round_half_even (of_nat n / u) = int n * 2 ^ nat (52 - e)"
    by (simp only: q round_half_even_of_int)
  have "fl (of_nat n) = pack (of_nat n) e (int n * 2 ^ nat (52 - e))"
    using False e r by (simp add: fl_def fle round_at_def u_def max_def)
  also have "\<dots> = Num (of_int (int n * 2 ^ nat (52 - e)) * u)"
    using False e by (simp add: pack_def u_def)
  also have "of_int (int n * 2 ^ nat (52 - e)) * u = (of_nat n :: rat)"
    by (simp add: u)
  finally show ?thesis .
qed

lemma digits_value_bound: "digits_value 10 d < 10 ^ length d" if "list_all is_digit d"
proof -
  have "foldl (\<lambda>a c. 10 * a + (case digit_of c of None \<Rightarrow> 0 | Some d \<Rightarrow> d)) a d < (a + 1) * 10 ^ length d"
    if "list_all is_digit d" for a
    using that
  proof (induction d arbitrary: a)
    case Nil
    then show ?case by simp
  next
    case (Cons x d)
    then have x: "(case digit_of x of None \<Rightarrow> 0 | Some d \<Rightarrow> d) \<le> 9"
      by (auto simp: digit_of_def is_digit_def)
    let ?a = "10 * a + (case digit_of x of None \<Rightarrow> 0 | Some d \<Rightarrow> d)"
    from Cons have "foldl (\<lambda>a c. 10 * a + (case digit_of c of None \<Rightarrow> 0 | Some d \<Rightarrow> d)) ?a d
        < (?a + 1) * 10 ^ length d" by simp
    also have "\<dots> \<le> ((a + 1) * 10) * 10 ^ length d"
      using x by (intro mult_right_mono) auto
    also have "\<dots> = (a + 1) * 10 ^ length (x # d)" by (simp add: algebra_simps)
    finally show ?case by simp
  qed
  from this [OF that, of 0] show ?thesis by (simp add: digits_value_def)
qed

lemma digit_not_space: "is_digit c \<Longrightarrow> \<not> is_white_space c"
  by (auto simp: is_digit_def is_white_space_def)

lemma parseInt_digits:
  assumes "list_all is_digit d" "d \<noteq> []" "length d \<le> 5"
  shows "parseInt d = decimal d"
proof -
  from assms obtain z d' where d: "d = z # d'" by (cases d) auto
  have z: "is_digit z" using assms(1) d by simp
  have dw: "dropWhile is_white_space d = d"
    using z d by (simp add: digit_not_space)
  have z45: "z \<noteq> 45" "z \<noteq> 43" using z by (auto simp: is_digit_def)
  have rad: "parse_radix 1 d = parse_digits 1 10 d"
  proof (cases d')
    case Nil
    with d show ?thesis by simp
  next
    case (Cons x d'')
    with assms(1) d have "is_digit x" by simp
    then have "x \<noteq> 120" "x \<noteq> 88" by (auto simp: is_digit_def)
    with d Cons show ?thesis by simp
  qed
  have ir: "in_radix 10 c" if "is_digit c" for c
    using that by (auto simp: in_radix_def digit_of_def is_digit_def)
  have tw: "takeWhile (in_radix 10) d = d"
    using assms(1) ir by (induction d) auto
  have "digits_value 10 d < 10 ^ length d" by (rule digits_value_bound [OF assms(1)])
  also have "\<dots> \<le> 10 ^ 5" using assms(3) by (intro power_increasing) auto
  finally have "digits_value 10 d < 2 ^ 53" by simp
  from fl_of_nat [OF this] show ?thesis
    using dw z45 rad tw assms(2) d by (simp add: parseInt_def parse_digits_def decimal_def)
qed

lemma dims_regex_eq:
  "dims_regex =
     Seq (Group 1 (Repeat True 3 (Some 5) Digit))
    (Seq (Repeat True 0 None Space)
    (Seq x_or_by
    (Seq (Repeat True 0 None Space)
         (Group 2 (Repeat True 3 (Some 5) Digit)))))"
  by (simp add: dims_regex_def x_or_by_def)

lemma lang_Repeat:
  "y \<in> lang (Repeat g mn mx a) ic (i, s, c) \<longleftrightarrow>
     (\<exists>w t. y = (i + length w, t, c) \<and> s = w @ t \<and> mn \<le> length w \<and>
        (\<forall>m. mx = Some m \<longrightarrow> length w \<le> m) \<and> list_all (atom_matches ic a) w)"
  by auto

lemma lang_Group_Repeat:
  "y \<in> lang (Group n (Repeat g mn mx a)) ic (i, s, c) \<longleftrightarrow>
     (\<exists>w t. y = (i + length w, t, c(n \<mapsto> w)) \<and> s = w @ t \<and> mn \<le> length w \<and>
        (\<forall>m. mx = Some m \<longrightarrow> length w \<le> m) \<and> list_all (atom_matches ic a) w)"
  by (auto simp: image_iff)

lemma canonicalize_xby [simp]:
  "canonicalize 120 = 88"
  "canonicalize 98 = 66"
  "canonicalize 121 = 89"
  by (simp_all add: canonicalize_def)

lemma lang_x_or_by:
  "y \<in> lang x_or_by True (i, s, c) \<longleftrightarrow>
     (\<exists>sep t. y = (i + length sep, t, c) \<and> s = sep @ t \<and> separator sep)"
proof
  assume "y \<in> lang x_or_by True (i, s, c)"
  then have "(\<exists>ch t. s = ch # t \<and> canonicalize ch = 88 \<and> y = (Suc i, t, c)) \<or>
             (\<exists>c1 c2 t. s = c1 # c2 # t \<and> canonicalize c1 = 66 \<and> canonicalize c2 = 89 \<and> y = (Suc (Suc i), t, c))"
    by (auto simp: x_or_by_def)
  then show "\<exists>sep t. y = (i + length sep, t, c) \<and> s = sep @ t \<and> separator sep"
  proof (elim disjE exE conjE)
    fix ch t assume "s = ch # t" "canonicalize ch = 88" "y = (Suc i, t, c)"
    then show ?thesis
      by (intro exI [of _ "[ch]"] exI [of _ t]) (simp add: separator_def js_def)
  next
    fix c1 c2 t assume "s = c1 # c2 # t" "canonicalize c1 = 66" "canonicalize c2 = 89"
      "y = (Suc (Suc i), t, c)"
    then show ?thesis
      by (intro exI [of _ "[c1, c2]"] exI [of _ t]) (simp add: separator_def js_def)
  qed
next
  assume "\<exists>sep t. y = (i + length sep, t, c) \<and> s = sep @ t \<and> separator sep"
  then obtain sep t where a: "y = (i + length sep, t, c)" "s = sep @ t" "separator sep" by blast
  from a(3) consider ch where "sep = [ch]" "canonicalize ch = 88"
    | c1 c2 where "sep = [c1, c2]" "canonicalize c1 = 66" "canonicalize c2 = 89"
    by (auto simp: separator_def js_def)
  then show "y \<in> lang x_or_by True (i, s, c)"
    using a by cases (auto simp: x_or_by_def)
qed

section \<open>The first dimensions in a prompt\<close>

lemma well_bounded_dims [simp]: "well_bounded dims_regex"
  by (simp add: dims_regex_def)

lemma is_digit_atom [simp]: "atom_matches ic Digit = is_digit"
  and is_space_atom [simp]: "atom_matches ic Space = is_white_space"
  by (auto simp: fun_eq_iff)

text \<open>What a match of the pattern from a state looks like.\<close>

lemma lang_dims_iff:
  "y \<in> lang dims_regex True (i, s, c) \<longleftrightarrow>
     (\<exists>d1 ws1 sep ws2 d2 t. s = d1 @ ws1 @ sep @ ws2 @ d2 @ t \<and> number3to5 d1 \<and>
        list_all is_white_space ws1 \<and> separator sep \<and> list_all is_white_space ws2 \<and> number3to5 d2 \<and>
        y = (i + length (d1 @ ws1 @ sep @ ws2 @ d2), t, c(1 \<mapsto> d1, 2 \<mapsto> d2)))"
  (is "?L \<longleftrightarrow> ?R")
proof
  assume ?L
  then obtain y1 y2 y3 y4 where
    y1: "y1 \<in> lang (Group 1 (Repeat True 3 (Some 5) Digit)) True (i, s, c)" and
    y2: "y2 \<in> lang (Repeat True 0 None Space) True y1" and
    y3: "y3 \<in> lang x_or_by True y2" and
    y4: "y4 \<in> lang (Repeat True 0 None Space) True y3" and
    y: "y \<in> lang (Group 2 (Repeat True 3 (Some 5) Digit)) True y4"
    unfolding dims_regex_eq lang.simps(2) by blast
  from y1 obtain d1 t1 where d1: "y1 = (i + length d1, t1, c(1 \<mapsto> d1))" "s = d1 @ t1"
    "3 \<le> length d1" "length d1 \<le> 5" "list_all is_digit d1"
    unfolding lang_Group_Repeat by auto
  from y2 obtain ws1 t2 where ws1: "y2 = (i + length d1 + length ws1, t2, c(1 \<mapsto> d1))" "t1 = ws1 @ t2"
    "list_all is_white_space ws1"
    unfolding d1(1) lang_Repeat by auto
  from y3 obtain sep t3 where sep: "y3 = (i + length d1 + length ws1 + length sep, t3, c(1 \<mapsto> d1))"
    "t2 = sep @ t3" "separator sep"
    unfolding ws1(1) lang_x_or_by by auto
  from y4 obtain ws2 t4 where ws2:
    "y4 = (i + length d1 + length ws1 + length sep + length ws2, t4, c(1 \<mapsto> d1))" "t3 = ws2 @ t4"
    "list_all is_white_space ws2"
    unfolding sep(1) lang_Repeat by auto
  from y obtain d2 t where d2:
    "y = (i + length d1 + length ws1 + length sep + length ws2 + length d2, t, c(1 \<mapsto> d1, 2 \<mapsto> d2))"
    "t4 = d2 @ t" "3 \<le> length d2" "length d2 \<le> 5" "list_all is_digit d2"
    unfolding ws2(1) lang_Group_Repeat by auto
  show ?R
    apply (rule exI [of _ d1], rule exI [of _ ws1], rule exI [of _ sep], rule exI [of _ ws2],
        rule exI [of _ d2], rule exI [of _ t])
    using d1 ws1 sep ws2 d2 by (simp add: number3to5_def)
next
  assume ?R
  then obtain d1 ws1 sep ws2 d2 t where a: "s = d1 @ ws1 @ sep @ ws2 @ d2 @ t" "number3to5 d1"
    "list_all is_white_space ws1" "separator sep" "list_all is_white_space ws2" "number3to5 d2"
    "y = (i + length (d1 @ ws1 @ sep @ ws2 @ d2), t, c(1 \<mapsto> d1, 2 \<mapsto> d2))"
    by blast
  let ?c = "c(1 \<mapsto> d1)"
  have 1: "(i + length d1, ws1 @ sep @ ws2 @ d2 @ t, ?c) \<in>
      lang (Group 1 (Repeat True 3 (Some 5) Digit)) True (i, s, c)"
    unfolding lang_Group_Repeat using a(1,2) by (auto simp: number3to5_def)
  have 2: "(i + length d1 + length ws1, sep @ ws2 @ d2 @ t, ?c) \<in>
      lang (Repeat True 0 None Space) True (i + length d1, ws1 @ sep @ ws2 @ d2 @ t, ?c)"
    unfolding lang_Repeat using a(3) by auto
  have 3: "(i + length d1 + length ws1 + length sep, ws2 @ d2 @ t, ?c) \<in>
      lang x_or_by True (i + length d1 + length ws1, sep @ ws2 @ d2 @ t, ?c)"
    unfolding lang_x_or_by using a(4) by auto
  have 4: "(i + length d1 + length ws1 + length sep + length ws2, d2 @ t, ?c) \<in>
      lang (Repeat True 0 None Space) True (i + length d1 + length ws1 + length sep, ws2 @ d2 @ t, ?c)"
    unfolding lang_Repeat using a(5) by auto
  have 5: "y \<in> lang (Group 2 (Repeat True 3 (Some 5) Digit)) True
      (i + length d1 + length ws1 + length sep + length ws2, d2 @ t, ?c)"
    unfolding lang_Group_Repeat using a(6,7) by (auto simp: number3to5_def)
  show ?L
    unfolding dims_regex_eq lang.simps(2) using 1 2 3 4 5 by blast
qed

text \<open>The second number is as long as the digits and the bound of five allow.\<close>

lemma dims_greedy:
  assumes "matcher dims_regex True (i, s, c) Some = Some (j, t, c')"
  shows "\<exists>d2. c' 2 = Some d2 \<and> (length d2 = 5 \<or> t = [] \<or> \<not> is_digit (hd t))"
proof -
  let ?k = "\<lambda>y. matcher (Group 2 (Repeat True 3 (Some 5) Digit)) True y Some"
  let ?r4 = "Seq (Group 1 (Repeat True 3 (Some 5) Digit))
    (Seq (Repeat True 0 None Space) (Seq x_or_by (Repeat True 0 None Space)))"
  have "matcher ?r4 True (i, s, c) ?k = Some (j, t, c')"
    using assms by (simp add: dims_regex_eq)
  moreover have "well_bounded ?r4" by (simp add: x_or_by_def)
  ultimately obtain y4 where "y4 \<in> lang ?r4 True (i, s, c)" "?k y4 = Some (j, t, c')"
    using matcher_sound by blast
  then obtain i4 s4 c4 where
    r: "rep True True 3 (Some 5) Digit (i4, s4, c4)
          (\<lambda>(j, t, caps'). Some (j, t, caps'(2 \<mapsto> take (j - i4) s4))) = Some (j, t, c')"
    by (cases y4) auto
  have b: "\<forall>m. Some (5::nat) = Some m \<longrightarrow> 3 \<le> m" by simp
  from rep_priority [OF r b] obtain w u where w: "s4 = w @ u" "3 \<le> length w" "length w \<le> 5"
    "list_all is_digit w" "(j, t, c') = (i4 + length w, u, c4(2 \<mapsto> take (i4 + length w - i4) (w @ u)))"
    and pr: "\<And>w' t'. s4 = w' @ t' \<Longrightarrow> length w < length w' \<Longrightarrow> 3 \<le> length w' \<Longrightarrow>
        length w' \<le> 5 \<Longrightarrow> list_all is_digit w' \<Longrightarrow> False"
    by (auto split: prod.splits)
  from w(5) have c': "c' 2 = Some w" and t: "t = u" by auto
  have "length w = 5 \<or> t = [] \<or> \<not> is_digit (hd t)"
  proof (rule ccontr)
    assume n: "\<not> (length w = 5 \<or> t = [] \<or> \<not> is_digit (hd t))"
    then obtain x u' where u: "u = x # u'" "is_digit x" using t by (cases u) auto
    have "s4 = (w @ [x]) @ u'" using w(1) u by simp
    from pr [OF this] n w show False using u by auto
  qed
  with c' show ?thesis by blast
qed

lemma occurrence_iff_lang:
  "(\<exists>pre d1 d2 m post. s = pre @ m @ post \<and> dims_pattern d1 d2 m \<and> length pre = n) \<longleftrightarrow>
   n \<le> length s \<and> lang dims_regex True (n, drop n s, Map.empty) \<noteq> {}"
  (is "?L \<longleftrightarrow> ?R")
proof
  assume ?L
  then obtain pre d1 d2 m post where a: "s = pre @ m @ post" "dims_pattern d1 d2 m" "length pre = n"
    by blast
  from a(2) obtain ws1 sep ws2 where m: "m = d1 @ ws1 @ sep @ ws2 @ d2" "number3to5 d1"
    "list_all is_white_space ws1" "separator sep" "list_all is_white_space ws2" "number3to5 d2"
    unfolding dims_pattern_def by blast
  have "drop n s = d1 @ ws1 @ sep @ ws2 @ d2 @ post" using a(1,3) m(1) by simp
  with m have "(n + length (d1 @ ws1 @ sep @ ws2 @ d2), post, Map.empty(1 \<mapsto> d1, 2 \<mapsto> d2))
      \<in> lang dims_regex True (n, drop n s, Map.empty)"
    unfolding lang_dims_iff by blast
  moreover have "n \<le> length s" using a(1,3) by simp
  ultimately show ?R by blast
next
  assume r: ?R
  then obtain y where "y \<in> lang dims_regex True (n, drop n s, Map.empty)" by blast
  then obtain d1 ws1 sep ws2 d2 t where a: "drop n s = d1 @ ws1 @ sep @ ws2 @ d2 @ t" "number3to5 d1"
    "list_all is_white_space ws1" "separator sep" "list_all is_white_space ws2" "number3to5 d2"
    unfolding lang_dims_iff by blast
  have "s = take n s @ (d1 @ ws1 @ sep @ ws2 @ d2) @ t"
    using a(1) by (metis append_assoc append_take_drop_id)
  moreover have "dims_pattern d1 d2 (d1 @ ws1 @ sep @ ws2 @ d2)"
    unfolding dims_pattern_def using a by blast
  moreover have "length (take n s) = n" using r by simp
  ultimately show ?L by blast
qed

lemma extract_None_iff:
  "extractDimensionsFromPrompt s = None \<longleftrightarrow>
     \<not> (\<exists>pre d1 d2 m post. s = pre @ m @ post \<and> dims_pattern d1 d2 m)"
proof -
  have "extractDimensionsFromPrompt s = None \<longleftrightarrow> exec_from dims_regex True 0 s = None"
    by (auto simp: extractDimensionsFromPrompt_def exec_def split: option.splits prod.splits)
  also have "\<dots> \<longleftrightarrow> (\<forall>n \<le> length s. lang dims_regex True (n, drop n s, Map.empty) = {})"
    using exec_from_None [of dims_regex True 0 s] by simp
  also have "\<dots> \<longleftrightarrow> \<not> (\<exists>n pre d1 d2 m post. s = pre @ m @ post \<and> dims_pattern d1 d2 m \<and> length pre = n)"
    using occurrence_iff_lang [of s] by blast
  finally show ?thesis by blast
qed

lemma extract_Some:
  assumes "extractDimensionsFromPrompt s = Some dims"
  shows "\<exists>pre d1 d2 m post. s = pre @ m @ post \<and> dims_pattern d1 d2 m \<and>
           width dims = decimal d1 \<and> height dims = decimal d2 \<and>
           (\<forall>pre' d1' d2' m' post'. s = pre' @ m' @ post' \<and> dims_pattern d1' d2' m' \<longrightarrow>
              length pre \<le> length pre') \<and>
           (length d2 = 5 \<or> post = [] \<or> \<not> is_digit (hd post))"
proof -
  from assms obtain p j t c' where e: "exec_from dims_regex True 0 s = Some (p, j, t, c')"
    by (auto simp: extractDimensionsFromPrompt_def exec_def split: option.splits prod.splits)
  from exec_from_Some [OF _ this] obtain n where n: "n \<le> length s" "p = n"
    "(j, t, c') \<in> lang dims_regex True (p, drop n s, Map.empty)"
    "\<forall>m < n. lang dims_regex True (m, drop m s, Map.empty) = {}"
    "matcher dims_regex True (p, drop n s, Map.empty) Some = Some (j, t, c')"
    by auto
  from n(3) obtain d1 ws1 sep ws2 d2 where a: "drop n s = d1 @ ws1 @ sep @ ws2 @ d2 @ t" "number3to5 d1"
    "list_all is_white_space ws1" "separator sep" "list_all is_white_space ws2" "number3to5 d2"
    "c' = Map.empty(1 \<mapsto> d1, 2 \<mapsto> d2)"
    unfolding lang_dims_iff by blast
  have s: "s = take n s @ (d1 @ ws1 @ sep @ ws2 @ d2) @ t"
    using a(1) by (metis append_assoc append_take_drop_id)
  have pat: "dims_pattern d1 d2 (d1 @ ws1 @ sep @ ws2 @ d2)"
    unfolding dims_pattern_def using a by blast
  have caps: "c' 1 = Some d1" "c' 2 = Some d2" using a(7) by simp_all
  have "dims = \<lparr>width = parseInt d1, height = parseInt d2\<rparr>"
    using assms e caps by (simp add: extractDimensionsFromPrompt_def exec_def)
  moreover have "parseInt d1 = decimal d1" "parseInt d2 = decimal d2"
    using a(2,6) by (auto simp: number3to5_def intro!: parseInt_digits)
  ultimately have wh: "width dims = decimal d1" "height dims = decimal d2" by simp_all
  have first: "length (take n s) \<le> length pre'"
    if "s = pre' @ m' @ post'" "dims_pattern d1' d2' m'" for pre' d1' d2' m' post'
  proof (rule ccontr)
    assume "\<not> length (take n s) \<le> length pre'"
    then have lt: "length pre' < n" using n(1) by simp
    have "lang dims_regex True (length pre', drop (length pre') s, Map.empty) \<noteq> {}"
      using occurrence_iff_lang [of s "length pre'"] that by blast
    with n(4) lt show False by blast
  qed
  from dims_greedy [OF n(5)] caps(2) have "length d2 = 5 \<or> t = [] \<or> \<not> is_digit (hd t)" by simp
  with s pat wh first show ?thesis by blast
qed

text \<open>
  Claim C7. \<^verbatim>\<open>extractDimensionsFromPrompt\<close> is total. It returns no match exactly
  when the prompt has no substring of the form: three to five digits, white
  space, \<open>x\<close> or \<open>by\<close> in either case, white space, three to five digits.
  Otherwise it returns the integers of the two numbers of such a substring, the
  one that starts first in the prompt (no other occurrence starts before it),
  with the second number as long as the digits that follow and the bound of
  five allow. \<open>Cyberpunk city 1920x1080\<close> gives 1920 by 1080 and
  \<open>a nice sunset\<close> gives no match.
\<close>

theorem extractDimensions_first_match:
  "(extractDimensionsFromPrompt s = None \<longleftrightarrow>
      \<not> (\<exists>pre d1 d2 m post. s = pre @ m @ post \<and> dims_pattern d1 d2 m)) \<and>
   (extractDimensionsFromPrompt s = Some dims \<longrightarrow>
      (\<exists>pre d1 d2 m post. s = pre @ m @ post \<and> dims_pattern d1 d2 m \<and>
           width dims = decimal d1 \<and> height dims = decimal d2 \<and>
           (\<forall>pre' d1' d2' m' post'. s = pre' @ m' @ post' \<and> dims_pattern d1' d2' m' \<longrightarrow>
              length pre \<le> length pre') \<and>
           (length d2 = 5 \<or> post = [] \<or> \<not> is_digit (hd post)))) \<and>
   extractDimensionsFromPrompt (js ''Cyberpunk city 1920x1080'') =
     Some \<lparr>width = Num 1920, height = Num 1080\<rparr> \<and>
   extractDimensionsFromPrompt (js ''a nice sunset'') = None"
  by (rule conjI, rule extract_None_iff, rule conjI, rule impI, erule extract_Some,
      rule conjI, rule dimensions_1920x1080, rule dimensions_sunset)

theorem extractDimensions_first_match_witness:
  "extractDimensionsFromPrompt (js ''Cyberpunk city 1920x1080'') =
     Some \<lparr>width = Num 1920, height = Num 1080\<rparr> \<and>
   (\<exists>pre d1 d2 m post. js ''Cyberpunk city 1920x1080'' = pre @ m @ post \<and> dims_pattern d1 d2 m \<and>
      decimal d1 = Num 1920 \<and> decimal d2 = Num 1080 \<and>
      (length d2 = 5 \<or> post = [] \<or> \<not> is_digit (hd post)))"
proof -
  have e: "extractDimensionsFromPrompt (js ''Cyberpunk city 1920x1080'') =
     Some \<lparr>width = Num 1920, height = Num 1080\<rparr>"
    by (rule dimensions_1920x1080)
  from extractDimensions_first_match
    [of "js ''Cyberpunk city 1920x1080''" "\<lparr>width = Num 1920, height = Num 1080\<rparr>"] e
  obtain pre d1 d2 m post where "js ''Cyberpunk city 1920x1080'' = pre @ m @ post"
    "dims_pattern d1 d2 m" "width \<lparr>width = Num 1920, height = Num 1080\<rparr> = decimal d1"
    "height \<lparr>width = Num 1920, height = Num 1080\<rparr> = decimal d2"
    "length d2 = 5 \<or> post = [] \<or> \<not> is_digit (hd post)"
    by blast
  then have "\<exists>pre d1 d2 m post. js ''Cyberpunk city 1920x1080'' = pre @ m @ post \<and> dims_pattern d1 d2 m \<and>
      decimal d1 = Num 1920 \<and> decimal d2 = Num 1080 \<and>
      (length d2 = 5 \<or> post = [] \<or> \<not> is_digit (hd post))"
    by (intro exI [of _ pre] exI [of _ d1] exI [of _ d2] exI [of _ m] exI [of _ post]) simp
  with e show ?thesis by (rule conjI [rotated, rotated])
qed

section \<open>The style options of a response\<close>

lemma canonicalize_eq_iff: "c < 65 \<Longrightarrow> canonicalize ch = c \<longleftrightarrow> ch = c"
  by (auto simp: canonicalize_def)

lemma canonicalize_small: "c < 97 \<Longrightarrow> canonicalize c = c"
  by (simp add: canonicalize_def)

lemma rep_zero [simp]: "rep ic g mn (Some 0) a (i, s, c) k = k (i, s, c)"
  by (cases s) simp_all

lemma matcher_lits:
  "matcher (lits w) True (i, s, c) k =
     (case word_ci w s of None \<Rightarrow> None | Some t \<Rightarrow> k (i + length w, t, c))"
proof (induction w arbitrary: i s)
  case Nil
  then show ?case by (simp add: lits_def word_ci_def js_def)
next
  case (Cons a w)
  have l: "lits (a # w) = Seq (Atom (Lit (of_char a))) (lits w)" by (simp add: lits_def)
  show ?case
  proof (cases s)
    case Nil
    then show ?thesis by (simp add: l word_ci_def js_def)
  next
    case (Cons ch cs)
    show ?thesis
    proof (cases "canonicalize ch = canonicalize (of_char a)")
      case True
      with Cons Cons.IH [of "Suc i" cs] show ?thesis
        by (simp add: l word_ci_def js_def)
    next
      case False
      with Cons show ?thesis by (simp add: l word_ci_def js_def)
    qed
  qed
qed

lemma matcher_opt:
  "matcher (opt a) True (i, s, c) K =
     (case s of
        [] \<Rightarrow> K (i, [], c)
      | ch # t \<Rightarrow>
          if canonicalize ch = canonicalize (of_char a)
          then (case K (Suc i, t, c) of Some r \<Rightarrow> Some r | None \<Rightarrow> K (i, ch # t, c))
          else K (i, ch # t, c))"
  by (cases s) (simp_all add: opt_def)

lemma matcher_asterisks:
  assumes "\<And>i t c. K (Suc i, t, c) = None \<Longrightarrow> K (i, 42 # t, c) = None"
  shows "matcher (lit CHR ''*'') True (i, s, c) (\<lambda>y. matcher (opt CHR ''*'') True y K) =
           (case asterisks s of None \<Rightarrow> None | Some t \<Rightarrow> K (i + (length s - length t), t, c))"
proof (cases s)
  case Nil
  then show ?thesis by (simp add: lit_def asterisks_def)
next
  case s: (Cons a t)
  show ?thesis
  proof (cases "a = 42")
    case False
    with s show ?thesis by (simp add: lit_def asterisks_def canonicalize_eq_iff canonicalize_small)
  next
    case a: True
    show ?thesis
    proof (cases t)
      case Nil
      with s a show ?thesis
        by (simp add: lit_def asterisks_def matcher_opt canonicalize_small)
    next
      case (Cons b u)
      show ?thesis
      proof (cases "b = 42")
        case True
        with s a Cons assms [of "Suc i" u c] show ?thesis
          by (cases "K (Suc (Suc i), u, c)")
             (simp_all add: lit_def asterisks_def matcher_opt canonicalize_small)
      next
        case False
        with s a Cons show ?thesis
          by (simp add: lit_def asterisks_def matcher_opt canonicalize_small canonicalize_eq_iff)
      qed
    qed
  qed
qed

lemma matcher_colon:
  assumes "\<And>i t c. K (i, 58 # t, c) = None"
  shows "matcher (opt CHR '':'') True (i, s, c) K = K (i + (length s - length (colon s)), colon s, c)"
proof (cases s)
  case Nil
  then show ?thesis by (simp add: matcher_opt colon_def)
next
  case (Cons a t)
  then show ?thesis
    using assms [of i t c]
    by (cases "K (Suc i, t, c)")
       (auto simp: matcher_opt colon_def canonicalize_small canonicalize_eq_iff)
qed

lemma word_ci_asterisk [simp]: "word_ci ''Style Suggestions'' (42 # t) = None"
  by (simp add: word_ci_def js_def canonicalize_def)

lemma asterisks_colon [simp]: "asterisks (58 # t) = None"
  by (simp add: asterisks_def)

lemma length_asterisks: "asterisks s = Some t \<Longrightarrow> length t < length s"
  by (auto simp: asterisks_def split: list.splits if_splits)

lemma length_colon: "length (colon s) \<le> length s"
  by (auto simp: colon_def split: list.splits)

lemma length_word_ci: "word_ci w s = Some t \<Longrightarrow> length s = length w + length t"
proof -
  assume a: "word_ci w s = Some t"
  then have "map canonicalize (take (length w) s) = map canonicalize (js w)" "t = drop (length w) s"
    by (auto simp: word_ci_def split: if_splits)
  then have "length (take (length w) s) = length w" "t = drop (length w) s"
    by (metis length_map js_def)+
  then show ?thesis by auto
qed

lemma matcher_styles_label:
  assumes "\<And>y. K y \<noteq> None"
  shows "matcher styles_label_regex True (i, s, c) K =
           (case styles_label s of None \<Rightarrow> None | Some t \<Rightarrow> K (i + (length s - length t), t, c))"
proof -
  let ?K3 = "\<lambda>y. matcher (lit CHR ''*'') True y (\<lambda>y. matcher (opt CHR ''*'') True y K)"
  let ?K2 = "\<lambda>y. matcher (opt CHR '':'') True y ?K3"
  let ?K1 = "\<lambda>y. matcher (lits ''Style Suggestions'') True y ?K2"
  have k3: "?K3 (j, t, c') =
      (case asterisks t of None \<Rightarrow> None | Some u \<Rightarrow> K (j + (length t - length u), u, c'))" for j t c'
    by (rule matcher_asterisks) (use assms in blast)
  have k2: "?K2 (j, t, c') =
      (case asterisks (colon t) of None \<Rightarrow> None | Some u \<Rightarrow> K (j + (length t - length u), u, c'))" for j t c'
  proof -
    have "?K2 (j, t, c') = ?K3 (j + (length t - length (colon t)), colon t, c')"
      by (rule matcher_colon) (simp add: k3)
    also have "\<dots> = (case asterisks (colon t) of None \<Rightarrow> None
        | Some u \<Rightarrow> K (j + (length t - length (colon t)) + (length (colon t) - length u), u, c'))"
      by (simp only: k3)
    also have "\<dots> = (case asterisks (colon t) of None \<Rightarrow> None | Some u \<Rightarrow> K (j + (length t - length u), u, c'))"
      using length_colon [of t] by (auto split: option.splits dest!: length_asterisks)
    finally show ?thesis .
  qed
  have k1: "?K1 (j, t, c') =
      (case Option.bind (word_ci ''Style Suggestions'' t) (\<lambda>s2. asterisks (colon s2)) of
         None \<Rightarrow> None | Some u \<Rightarrow> K (j + (length t - length u), u, c'))" for j t c'
  proof (cases "word_ci ''Style Suggestions'' t")
    case None
    then show ?thesis by (simp add: matcher_lits)
  next
    case (Some s2)
    define n where "n = length ''Style Suggestions''"
    have l: "length t = n + length s2"
      using length_word_ci [OF Some] by (simp add: n_def)
    have "?K1 (j, t, c') = ?K2 (j + n, s2, c')"
      using Some by (simp add: matcher_lits n_def)
    also have "\<dots> = (case asterisks (colon s2) of None \<Rightarrow> None
        | Some u \<Rightarrow> K (j + n + (length s2 - length u), u, c'))"
      by (simp only: k2)
    also have "\<dots> = (case asterisks (colon s2) of None \<Rightarrow> None | Some u \<Rightarrow> K (j + (length t - length u), u, c'))"
      using length_colon [of s2] l by (auto simp: add.assoc split: option.splits dest!: length_asterisks)
    finally show ?thesis using Some by simp
  qed
  have none: "?K1 (j, 42 # t, c') = None" for j t c'
    by (simp add: matcher_lits)
  have "matcher styles_label_regex True (i, s, c) K =
      matcher (lit CHR ''*'') True (i, s, c) (\<lambda>y. matcher (opt CHR ''*'') True y ?K1)"
    by (simp add: styles_label_regex_def)
  also have "\<dots> = (case asterisks s of None \<Rightarrow> None | Some t \<Rightarrow> ?K1 (i + (length s - length t), t, c))"
    by (rule matcher_asterisks) (rule none)
  also have "\<dots> = (case styles_label s of None \<Rightarrow> None | Some t \<Rightarrow> K (i + (length s - length t), t, c))"
  proof (cases "asterisks s")
    case None
    then show ?thesis by (simp add: styles_label_def)
  next
    case (Some s1)
    from length_asterisks [OF this] have l: "length s1 < length s" .
    have "(case Option.bind (word_ci ''Style Suggestions'' s1) (\<lambda>s2. asterisks (colon s2)) of
         None \<Rightarrow> None | Some u \<Rightarrow> K (i + (length s - length s1) + (length s1 - length u), u, c)) =
       (case Option.bind (word_ci ''Style Suggestions'' s1) (\<lambda>s2. asterisks (colon s2)) of
         None \<Rightarrow> None | Some u \<Rightarrow> K (i + (length s - length u), u, c))"
    proof (cases "Option.bind (word_ci ''Style Suggestions'' s1) (\<lambda>s2. asterisks (colon s2))")
      case None
      then show ?thesis by simp
    next
      case u: (Some u)
      then obtain s2 where s2: "word_ci ''Style Suggestions'' s1 = Some s2" "asterisks (colon s2) = Some u"
        by (auto simp: bind_eq_Some_conv)
      have "length u < length s1"
        using length_word_ci [OF s2(1)] length_asterisks [OF s2(2)] length_colon [of s2] by simp
      with l u show ?thesis by simp
    qed
    with Some show ?thesis by (simp add: styles_label_def k1)
  qed
  finally show ?thesis .
qed

text \<open>The block: up to the first horizontal rule or the end of the text.\<close>

lemma lookahead_rule:
  "matcher (LookAhead (Alt Eos (lits ''---''))) True (j, t, c) Some =
     (if t = [] \<or> take 3 t = js ''---'' then Some (j, t, c) else None)"
proof (cases t)
  case Nil
  then show ?thesis by simp
next
  case (Cons a u)
  have "word_ci ''---'' t \<noteq> None \<longleftrightarrow> take 3 t = js ''---''"
    by (cases t; cases "tl t"; cases "tl (tl t)")
       (auto simp: word_ci_def js_def canonicalize_eq_iff canonicalize_small)
  with Cons show ?thesis
    by (cases "word_ci ''---'' t") (simp_all add: matcher_lits)
qed

lemma lazy_block:
  "rep True False 0 None any_char (i, s, c)
     (\<lambda>(j, t, c'). matcher (LookAhead (Alt Eos (lits ''---''))) True (j, t, c'(1 \<mapsto> take (j - i0) full)) Some) =
   Some (i + length (before_rule s), drop (length (before_rule s)) s,
         c(1 \<mapsto> take (i + length (before_rule s) - i0) full))"
proof (induction s arbitrary: i)
  case Nil
  then show ?case by (simp add: lookahead_rule del: matcher.simps)
next
  case (Cons a s)
  have any: "atom_matches True any_char a" by (simp add: any_char_def)
  show ?case
  proof (cases "take 3 (a # s) = js ''---''")
    case True
    then show ?thesis by (simp add: lookahead_rule del: matcher.simps)
  next
    case False
    with Cons.IH [of "Suc i"] any show ?thesis
      by (simp add: lookahead_rule del: matcher.simps)
  qed
qed

lemma styles_block:
  "matcher (Seq (Group 1 (Repeat False 0 None any_char)) (LookAhead (Alt Eos (lits ''---'')))) True
     (i, s, c) Some =
   Some (i + length (before_rule s), drop (length (before_rule s)) s, c(1 \<mapsto> before_rule s))"
proof -
  have b: "take (length (before_rule s)) s = before_rule s"
    by (induction s) auto
  have "matcher (Seq (Group 1 (Repeat False 0 None any_char)) (LookAhead (Alt Eos (lits ''---'')))) True
     (i, s, c) Some =
     rep True False 0 None any_char (i, s, c)
     (\<lambda>(j, t, c'). matcher (LookAhead (Alt Eos (lits ''---''))) True (j, t, c'(1 \<mapsto> take (j - i) s)) Some)"
    by (simp del: matcher.simps(6) rep.simps)
  then show ?thesis by (simp only: lazy_block) (simp add: b)
qed

lemma matcher_styles_regex:
  "matcher styles_regex True (i, s, Map.empty) Some =
     (case styles_label s of None \<Rightarrow> None
      | Some t \<Rightarrow> Some (i + (length s - length t) + length (before_rule t),
                       drop (length (before_rule t)) t, Map.empty(1 \<mapsto> before_rule t)))"
proof -
  let ?K = "\<lambda>y. matcher (Seq (Group 1 (Repeat False 0 None any_char)) (LookAhead (Alt Eos (lits ''---'')))) True y Some"
  have k: "?K y \<noteq> None" for y
    by (cases y) (simp only: styles_block, simp)
  have "matcher styles_regex True (i, s, Map.empty) Some = matcher styles_label_regex True (i, s, Map.empty) ?K"
    by (simp add: styles_regex_def styles_label_regex_def)
  also have "\<dots> = (case styles_label s of None \<Rightarrow> None | Some t \<Rightarrow> ?K (i + (length s - length t), t, Map.empty))"
    by (rule matcher_styles_label) (rule k)
  finally show ?thesis by (simp only: styles_block)
qed

lemma styles_label_Nil [simp]: "styles_label [] = None"
  by (simp add: styles_label_def asterisks_def)

lemma exec_styles_regex:
  "map_option (\<lambda>(n, j, t, caps). caps 1) (exec_from styles_regex True i s) =
     map_option (\<lambda>t. Some (before_rule t)) (after_styles_label s)"
proof (induction s arbitrary: i)
  case Nil
  then show ?case by (simp add: matcher_styles_regex)
next
  case (Cons a s)
  then show ?case
    by (cases "styles_label (a # s)") (simp_all add: matcher_styles_regex)
qed

lemma exec_from_bos: "0 < i \<Longrightarrow> exec_from (Seq Bos r) ic i s = None"
  by (induction s arbitrary: i) simp_all

lemma exec_bos: "exec (Seq Bos r) ic s = map_option (Pair 0) (matcher r ic (0, s, Map.empty) Some)"
  by (cases s) (auto simp: exec_def exec_from_bos split: option.splits)

lemma bullet_class_marker [simp]: "atom_matches False bullet_class = is_marker"
  by (auto simp: fun_eq_iff bullet_class_def is_marker_def)

lemma bullet_line:
  "exec bullet_regex False line \<noteq> None \<longleftrightarrow> line \<noteq> [] \<and> is_marker (hd line)"
  by (cases line) (simp_all add: bullet_regex_def exec_bos)

lemma rep_greedy_all:
  assumes "k (i + length (takeWhile (atom_matches ic a) s), dropWhile (atom_matches ic a) s, c) = Some res"
  shows "rep ic True 0 None a (i, s, c) k = Some res"
  using assms
proof (induction s arbitrary: i)
  case Nil
  then show ?case by simp
next
  case (Cons x s)
  show ?case
  proof (cases "atom_matches ic a x")
    case True
    with Cons.prems have "k (Suc i + length (takeWhile (atom_matches ic a) s),
        dropWhile (atom_matches ic a) s, c) = Some res" by simp
    from Cons.IH [OF this] True show ?thesis by simp
  next
    case False
    with Cons.prems show ?thesis by simp
  qed
qed

lemma marker_line:
  assumes "line \<noteq> []" "is_marker (hd line)"
  shows "replace_first marker_regex False [] line = dropWhile is_white_space (dropWhile is_marker line)"
proof -
  from assms obtain ch t where line: "line = ch # t" "is_marker ch" by (cases line) auto
  let ?m = "takeWhile is_marker t" and ?r = "dropWhile is_marker t"
  let ?j = "Suc 0 + length ?m + length (takeWhile is_white_space ?r)"
  have "rep False True 0 None Space (Suc 0 + length ?m, ?r, Map.empty) Some =
      Some (?j, dropWhile is_white_space ?r, Map.empty)"
    by (rule rep_greedy_all) simp
  then have "rep False True 0 None bullet_class (Suc 0, t, Map.empty)
      (\<lambda>y. rep False True 0 None Space y Some) = Some (?j, dropWhile is_white_space ?r, Map.empty)"
    by (intro rep_greedy_all) simp
  then have "exec marker_regex False line = Some (0, ?j, dropWhile is_white_space ?r, Map.empty)"
    using line by (simp add: marker_regex_def exec_bos)
  moreover have "drop (length ?m + length (takeWhile is_white_space ?r)) t = dropWhile is_white_space ?r"
    by (metis add.commute drop_drop dropWhile_eq_drop)
  ultimately show ?thesis using line by (simp add: replace_first_def)
qed

lemma style_lines_regex:
  "map (replace_first marker_regex False [])
     (filter (\<lambda>line. exec bullet_regex False line \<noteq> None) (map trim (split_char 10 block))) =
   style_lines block"
  unfolding style_lines_def bullet_line
  by (rule map_cong [OF refl]) (simp add: marker_line)

lemma style_lines_Nil [simp]: "style_lines [] = []"
  by (simp add: style_lines_def trim_def)

lemma extractStyles_eq: "extractStyles s = style_options s"
proof (cases "after_styles_label s")
  case None
  with exec_styles_regex [of 0 s] have "exec styles_regex True s = None"
    by (simp add: exec_def)
  with None show ?thesis by (simp add: extractStyles_def style_options_def)
next
  case (Some t)
  with exec_styles_regex [of 0 s] obtain n j u caps where
    e: "exec styles_regex True s = Some (n, j, u, caps)" "caps 1 = Some (before_rule t)"
    by (auto simp: exec_def)
  with Some show ?thesis
    by (simp add: extractStyles_def style_options_def style_lines_regex del: not_None_eq)
qed

lemma styles_example: "style_options example_response = [js ''Anime'']"
  by (simp add: style_options_def styles_label_def asterisks_def word_ci_def colon_def
      style_lines_def is_marker_def example_response_def regex_eval)

lemma styles_plain_label:
  "extractStyles (js ''Style Suggestions:'' @ [10] @ js ''* Anime'') = []"
  by (simp add: extractStyles_def styles_regex_def bullet_regex_def marker_regex_def bullet_class_def
      regex_eval)

text \<open>
  Claim C6, as the code has it. \<^verbatim>\<open>extractStyles\<close> is total and, on every text,
  gives the style options in words: the block after the first label
  \<open>Style Suggestions\<close> (any case) that has one or two asterisks on each side, up
  to the first \<open>---\<close> or the end of the text; its lines, trimmed; those whose
  first character is an asterisk, a hyphen, the bullet, a digit or a full stop,
  in their order, each without its leading run of such characters and the white
  space after it; and the empty list when there is no such label. The response
  of the example gives \<open>Anime\<close> alone.
\<close>

theorem extractStyles_keeps_marked_lines:
  "extractStyles s = style_options s \<and> extractStyles example_response = [js ''Anime'']"
  using extractStyles_eq [of s] extractStyles_eq [of example_response] styles_example by simp

text \<open>
  Against claim C6 as stated: a label without asterisks is not located. The
  block \<open>* Anime\<close> on the line after \<open>Style Suggestions:\<close> would give the option
  \<open>Anime\<close>, and the result is empty.
\<close>

theorem plain_style_label_is_not_located:
  "extractStyles (js ''Style Suggestions:'' @ [10] @ js ''* Anime'') = [] \<and>
   style_lines ([10] @ js ''* Anime'') = [js ''Anime'']"
proof (rule conjI)
  show "extractStyles (js ''Style Suggestions:'' @ [10] @ js ''* Anime'') = []"
    by (rule styles_plain_label)
  show "style_lines ([10] @ js ''* Anime'') = [js ''Anime'']"
    by (simp add: style_lines_def is_marker_def regex_eval)
qed

section \<open>The enhanced prompt of a response\<close>

subsection \<open>The fallback\<close>

lemma plain_label_Nil [simp]: "plain_label [] = None"
  by (simp add: plain_label_def word_ci_def js_def)







lemma trim_Nil [simp]: "trim [] = []"
  by (simp add: trim_def)


subsection \<open>The lookahead\<close>


lemma word_ci_star [simp]:
  "word_ci ''Style'' (42 # t) = None" "word_ci ''Options'' (42 # t) = None"
  by (simp_all add: word_ci_def js_def canonicalize_def)









subsection \<open>The label and the capture\<close>


lemma word_ci_prompt_star [simp]: "word_ci ''Enhanced Prompt'' (42 # t) = None"
  by (simp add: word_ci_def js_def canonicalize_def)













lemma enhanced_label_Nil [simp]: "enhanced_label [] = None"
  by (simp add: enhanced_label_def asterisks_def)










lemma example_before:
  "trim (65 # before_section (js '' cat. '' @ [10] @ js ''**Style Suggestions:**'' @ [10] @ js ''* Anime'')) =
     js ''A cat.''"
  by (simp add: section_line_break_def section_line_def emphasised_def asterisks_def word_ci_def regex_eval)






end
